theory Spec2Isabelle
  imports Complex_Main "HOL-Library.Multiset"
begin

section \<open>Go's \<open>int\<close>\<close>

text \<open>
  The server is built for 64-bit targets, where Go's \<open>int\<close> is a 64-bit two's complement
  integer. Values are modelled as \<open>int\<close>; every \<open>+\<close>, \<open>-\<close> and \<open>*\<close> of the tax estimator
  is followed by \<open>wrap\<close>, the reduction into the range \<open>-2^63 .. 2^63 - 1\<close>. Go's \<open>/\<close>
  truncates towards zero (\<open>tdiv\<close>, and \<open>quo\<close> with the wrap-around of \<open>MinInt / -1\<close>) and
  panics on a zero divisor (\<open>go_div\<close>).
\<close>

definition wrap :: "int \<Rightarrow> int" where
  "wrap x = (x + 2 ^ 63) mod 2 ^ 64 - 2 ^ 63"

definition is_int :: "int \<Rightarrow> bool" where
  "is_int x \<longleftrightarrow> - (2 ^ 63) \<le> x \<and> x < 2 ^ 63"

definition tdiv :: "int \<Rightarrow> int \<Rightarrow> int" where
  "tdiv a b = sgn a * sgn b * (\<bar>a\<bar> div \<bar>b\<bar>)"

definition quo :: "int \<Rightarrow> int \<Rightarrow> int" where
  "quo a b = wrap (tdiv a b)"

section \<open>The tax estimator (\<open>internal/estimate/estimate.go\<close>)\<close>

datatype error =
    FetchStdDeductionFailed
  | MarriedNotYetSupported
  | UnsupportedFilingStatus string
  | QueryFailed
  | ScanFailed
  | DivideByZero

definition go_div :: "int \<Rightarrow> int \<Rightarrow> error + int" where
  "go_div a b = (if b = 0 then Inl DivideByZero else Inr (quo a b))"

record TaxResult =
  FederalCents :: int
  StateCents :: int
  FicaCents :: int
  PerPaycheckNetCents :: int
  TermNetCents :: int

text \<open>
  One row of \<open>tax_tables_federal\<close> or \<open>tax_tables_state\<close>, as the bracket walk scans it:
  \<open>bracket_low\<close>, \<open>bracket_high\<close>, \<open>rate_bps\<close>.
\<close>

record bracket =
  bracket_low :: int
  bracket_high :: int
  rate_bps :: int

text \<open>
  The database is the answers to the three queries of \<open>EstimateTaxes\<close>. The standard
  deduction of a year is \<open>None\<close> when \<open>row.Scan\<close> fails (no row for the year). A bracket
  query is \<open>None\<close> when \<open>QueryContext\<close> fails, and otherwise the rows in the order
  \<open>ORDER BY bracket_low ASC\<close> delivers them; a row is \<open>None\<close> when \<open>rows.Scan\<close> fails on it.
\<close>

record DB =
  std_deduction_single :: "int \<Rightarrow> int option"
  tax_tables_federal :: "int \<Rightarrow> bracket option list option"
  tax_tables_state :: "int \<Rightarrow> string \<Rightarrow> bracket option list option"

text \<open>
  The loop \<open>for rows.Next() { ... }\<close>, the same for both tables. Its state is the tax
  accumulated so far and \<open>remaining\<close>; the third component records the value of \<open>segment\<close>
  of each iteration that reaches the accumulation, in order. It is not a variable of the
  source and nothing is computed from it. The row is scanned before \<open>remaining\<close> is tested,
  as in the source.
\<close>

fun bracket_walk ::
  "int \<Rightarrow> bracket option list \<Rightarrow> int \<times> int \<times> int list \<Rightarrow> error + (int \<times> int \<times> int list)" where
  "bracket_walk taxableIncome [] s = Inr s"
| "bracket_walk taxableIncome (None # rows) s = Inl ScanFailed"
| "bracket_walk taxableIncome (Some b # rows) (tax, remaining, segments) =
     (if remaining \<le> 0 then Inr (tax, remaining, segments)
      else
        let upperBound = (if bracket_high b = 0 then taxableIncome else bracket_high b);
            segment = min remaining (wrap (upperBound - bracket_low b))
        in bracket_walk taxableIncome rows
             (wrap (tax + quo (wrap (segment * rate_bps b)) 10000),
              wrap (remaining - segment),
              segments @ [segment]))"

definition federal_tax :: "DB \<Rightarrow> int \<Rightarrow> int \<Rightarrow> error + int" where
  "federal_tax d year taxableIncome =
     (case tax_tables_federal d year of
        None \<Rightarrow> Inl QueryFailed
      | Some rows \<Rightarrow>
          (case bracket_walk taxableIncome rows (0, taxableIncome, []) of
             Inl e \<Rightarrow> Inl e
           | Inr (federalTax, remaining, segments) \<Rightarrow> Inr federalTax))"

definition state_tax :: "DB \<Rightarrow> int \<Rightarrow> string \<Rightarrow> int \<Rightarrow> error + int" where
  "state_tax d year state taxableIncome =
     (if state \<noteq> [] then
        (case tax_tables_state d year state of
           None \<Rightarrow> Inl QueryFailed
         | Some rows \<Rightarrow>
             (case bracket_walk taxableIncome rows (0, taxableIncome, []) of
                Inl e \<Rightarrow> Inl e
              | Inr (stateTax, remaining, segments) \<Rightarrow> Inr stateTax))
      else Inr 0)"

definition checks :: "string \<Rightarrow> int \<Rightarrow> int" where
  "checks payFreq termWeeks =
     (if payFreq = ''weekly'' then termWeeks
      else if payFreq = ''biweekly'' then quo termWeeks 2
      else if payFreq = ''monthly'' then quo termWeeks 4
      else quo termWeeks 2)"

definition taxable_income :: "int \<Rightarrow> int \<Rightarrow> int" where
  "taxable_income incomeCents stdDeduction =
     (let taxableIncome = wrap (incomeCents - stdDeduction)
      in if taxableIncome < 0 then 0 else taxableIncome)"

definition EstimateTaxes ::
  "DB \<Rightarrow> int \<Rightarrow> string \<Rightarrow> string \<Rightarrow> int \<Rightarrow> string \<Rightarrow> int \<Rightarrow> error + TaxResult" where
  "EstimateTaxes d incomeCents state filingStatus year payFreq termWeeks =
     (if filingStatus = ''single'' then
        (case std_deduction_single d year of
           None \<Rightarrow> Inl FetchStdDeductionFailed
         | Some stdDeduction \<Rightarrow>
             let taxableIncome = taxable_income incomeCents stdDeduction in
             (case federal_tax d year taxableIncome of
                Inl e \<Rightarrow> Inl e
              | Inr federalTax \<Rightarrow>
                  (case state_tax d year state taxableIncome of
                     Inl e \<Rightarrow> Inl e
                   | Inr stateTax \<Rightarrow>
                       let ficaTax = quo (wrap (incomeCents * 765)) 10000;
                           totalTax = wrap (wrap (federalTax + stateTax) + ficaTax);
                           netAnnual = wrap (incomeCents - totalTax)
                       in (case (if checks payFreq termWeeks > 0
                                 then go_div netAnnual (checks payFreq termWeeks)
                                 else Inr 0) of
                             Inl e \<Rightarrow> Inl e
                           | Inr perPay \<Rightarrow>
                               Inr \<lparr>FederalCents = federalTax,
                                    StateCents = stateTax,
                                    FicaCents = ficaTax,
                                    PerPaycheckNetCents = perPay,
                                    TermNetCents = netAnnual\<rparr>))))
      else if filingStatus = ''married'' then Inl MarriedNotYetSupported
      else Inl (UnsupportedFilingStatus filingStatus))"

subsection \<open>Bracket tables\<close>

text \<open>
  A table covers \<open>[0, \<infinity>)\<close> when it is sorted ascending by low bound, its first low bound
  is 0, each low bound is the high bound of the bracket before it, and the high bound of
  its last bracket is the sentinel 0.
\<close>

fun contiguous :: "bracket list \<Rightarrow> bool" where
  "contiguous (b # b' # bs) \<longleftrightarrow> bracket_low b' = bracket_high b \<and> contiguous (b' # bs)"
| "contiguous bs \<longleftrightarrow> True"

definition covers :: "bracket list \<Rightarrow> bool" where
  "covers bs \<longleftrightarrow>
     bs \<noteq> [] \<and> sorted (map bracket_low bs) \<and> bracket_low (hd bs) = 0 \<and> contiguous bs
     \<and> bracket_high (last bs) = 0"

text \<open>The columns of a row are Go \<open>int\<close>s.\<close>

definition bracket_ints :: "bracket \<Rightarrow> bool" where
  "bracket_ints b \<longleftrightarrow> is_int (bracket_low b) \<and> is_int (bracket_high b) \<and> is_int (rate_bps b)"

text \<open>A rate between 0 and 10000 basis points, that is between 0% and 100%.\<close>

definition rate_ok :: "bracket \<Rightarrow> bool" where
  "rate_ok b \<longleftrightarrow> 0 \<le> rate_bps b \<and> rate_bps b \<le> 10000"

text \<open>A table with no row at all is the case of a jurisdiction without data.\<close>

definition table_ok :: "bracket list \<Rightarrow> bool" where
  "table_ok bs \<longleftrightarrow> (bs = [] \<or> covers bs) \<and> list_all bracket_ints bs \<and> list_all rate_ok bs"

text \<open>
  The tax that the walk accumulates from a start value over a list of segments, each with
  the bracket it was cut from.
\<close>

definition tax_of_segments :: "int \<Rightarrow> (int \<times> bracket) list \<Rightarrow> int" where
  "tax_of_segments t sbs =
     foldl (\<lambda>tax (segment, b). wrap (tax + quo (wrap (segment * rate_bps b)) 10000)) t sbs"

definition total_tax :: "TaxResult \<Rightarrow> int" where
  "total_tax r = FederalCents r + StateCents r + FicaCents r"

text \<open>
  The brackets that remain of a covering table from low bound \<open>l\<close> on; the invariant of the
  walk in the proofs below.
\<close>

fun chain :: "int \<Rightarrow> bracket list \<Rightarrow> bool" where
  "chain l [] \<longleftrightarrow> False"
| "chain l [b] \<longleftrightarrow> bracket_low b = l \<and> bracket_high b = 0"
| "chain l (b # b' # bs) \<longleftrightarrow>
     bracket_low b = l \<and> l \<le> bracket_high b \<and> chain (bracket_high b) (b' # bs)"

subsection \<open>Example tables\<close>

text \<open>The tables of scenario A: a flat 22% federal bracket and a flat 5% state bracket.\<close>

definition scenario_A_db :: DB where
  "scenario_A_db =
     \<lparr>std_deduction_single = (\<lambda>year. Some 1385000),
      tax_tables_federal =
        (\<lambda>year. Some [Some \<lparr>bracket_low = 0, bracket_high = 0, rate_bps = 2200\<rparr>]),
      tax_tables_state =
        (\<lambda>year state. Some [Some \<lparr>bracket_low = 0, bracket_high = 0, rate_bps = 500\<rparr>])\<rparr>"

text \<open>Three single-filer brackets of 10%, 12% and 22%.\<close>

definition brackets_2023 :: "bracket list" where
  "brackets_2023 =
     [\<lparr>bracket_low = 0, bracket_high = 1100000, rate_bps = 1000\<rparr>,
      \<lparr>bracket_low = 1100000, bracket_high = 4472500, rate_bps = 1200\<rparr>,
      \<lparr>bracket_low = 4472500, bracket_high = 0, rate_bps = 2200\<rparr>]"

text \<open>
  A federal table that leaves the incomes between 1000 and 2000 uncovered, one with a
  negative rate, and one with the rate 0; no state has a row.
\<close>

definition gap_db :: DB where
  "gap_db =
     \<lparr>std_deduction_single = (\<lambda>year. Some 0),
      tax_tables_federal =
        (\<lambda>year. Some [Some \<lparr>bracket_low = 0, bracket_high = 1000, rate_bps = 5000\<rparr>,
                     Some \<lparr>bracket_low = 2000, bracket_high = 0, rate_bps = 9000\<rparr>]),
      tax_tables_state = (\<lambda>year state. Some [])\<rparr>"

definition rebate_db :: DB where
  "rebate_db =
     \<lparr>std_deduction_single = (\<lambda>year. Some 0),
      tax_tables_federal =
        (\<lambda>year. Some [Some \<lparr>bracket_low = 0, bracket_high = 0, rate_bps = - 1000\<rparr>]),
      tax_tables_state = (\<lambda>year state. Some [])\<rparr>"

definition untaxed_db :: DB where
  "untaxed_db =
     \<lparr>std_deduction_single = (\<lambda>year. Some 0),
      tax_tables_federal =
        (\<lambda>year. Some [Some \<lparr>bracket_low = 0, bracket_high = 0, rate_bps = 0\<rparr>]),
      tax_tables_state = (\<lambda>year state. Some [])\<rparr>"

section \<open>The recurring-charge detector (\<open>internal/plaid/client.go\<close>)\<close>

text \<open>
  A \<open>Transaction\<close> as \<open>GetTransactions\<close> builds it. \<open>Amount\<close> is a \<open>float64\<close>; the detector
  only compares it with 0 and renders it with \<open>%.2f\<close>, so its type is left open: any type
  with a 0 and a \<open><\<close>, the rendering being a parameter. \<open>Date\<close> is a \<open>time.Time\<close> parsed
  from a calendar date \<open>2006-01-02\<close>, midnight UTC; it is modelled by the number of its day.
\<close>

record 'a Transaction =
  ID :: string
  AccountID :: string
  Amount :: 'a
  Date :: int
  Name :: string
  MerchantName :: string
  Category :: "string list"
  Pending :: bool
  PaymentChannel :: string

text \<open>The fields of a \<open>RecurringSubscription\<close>, under their JSON names.\<close>

record 'a RecurringSubscription =
  merchant_name :: string
  amount :: 'a
  frequency :: string
  last_charge :: int
  next_due :: int
  category :: "string list"

text \<open>
  \<open>int(t.Sub(u).Hours() / 24)\<close> for two midnights \<open>t\<close> and \<open>u\<close>. A \<open>Duration\<close> counts
  nanoseconds in an \<open>int64\<close> and \<open>Sub\<close> saturates: the largest and the smallest duration
  are a little under 106752 days, which the conversion truncates to 106751.
\<close>

definition days_between :: "int \<Rightarrow> int \<Rightarrow> int" where
  "days_between t u =
     (if t - u > 106751 then 106751 else if t - u < - 106751 then - 106751 else t - u)"

text \<open>
  The inner and the outer loop that sort the slice in place, most recent first; \<open>n\<close> is
  \<open>len(transactions)\<close>, which the swaps do not change. \<open>Before\<close> is \<open><\<close> on days, and
  \<open>exchange\<close> is the body of the inner loop: the test and the swap.
\<close>

definition exchange :: "nat \<Rightarrow> nat \<Rightarrow> 'a Transaction list \<Rightarrow> 'a Transaction list" where
  "exchange i j transactions =
     (if Date (transactions ! i) < Date (transactions ! j)
      then transactions[i := transactions ! j, j := transactions ! i]
      else transactions)"

function sort_inner :: "nat \<Rightarrow> nat \<Rightarrow> nat \<Rightarrow> 'a Transaction list \<Rightarrow> 'a Transaction list" where
  "sort_inner n i j transactions =
     (if j < n then sort_inner n i (j + 1) (exchange i j transactions) else transactions)"
  by pat_completeness auto
termination
  by (relation "measure (\<lambda>(n, i, j, transactions). n - j)") auto

function sort_outer :: "nat \<Rightarrow> nat \<Rightarrow> 'a Transaction list \<Rightarrow> 'a Transaction list" where
  "sort_outer n i transactions =
     (if i + 1 < n then sort_outer n (i + 1) (sort_inner n i (i + 1) transactions)
      else transactions)"
  by pat_completeness auto
termination
  by (relation "measure (\<lambda>(n, i, transactions). n - i)") auto

declare sort_inner.simps [simp del] sort_outer.simps [simp del]

definition abs_go :: "int \<Rightarrow> int" where
  "abs_go x = (if x < 0 then - x else x)"

text \<open>
  Every interval is between -106751 and 106751 and a slice of transactions has far fewer
  than \<open>2^63 / 106751\<close> elements, so no sum, difference or quotient of the detector leaves
  the range of \<open>int\<close>: its arithmetic is written without \<open>wrap\<close>, its divisions with
  \<open>tdiv\<close>. The divisors are lengths that the guards before them make positive.
\<close>

definition intervals_of :: "'a Transaction list \<Rightarrow> int list" where
  "intervals_of transactions =
     map (\<lambda>i. days_between (Date (transactions ! (i - 1))) (Date (transactions ! i)))
       [1..<length transactions]"

text \<open>
  \<open>isRecurring\<close> sorts the slice it is given in place, so the caller's slice is sorted
  after the call: the function returns the sorted slice with its verdict.
\<close>

definition isRecurring :: "'a Transaction list \<Rightarrow> bool \<times> 'a Transaction list" where
  "isRecurring transactions =
     (if length transactions < 2 then (False, transactions)
      else
        let sorted = sort_outer (length transactions) 0 transactions;
            intervals = intervals_of sorted
        in if length intervals < 1 then (False, sorted)
           else
             let avgInterval = tdiv (sum_list intervals) (int (length intervals))
             in (list_all (\<lambda>interval. \<not> abs_go (interval - avgInterval) > 5) intervals, sorted))"

definition determineFrequency :: "'a Transaction list \<Rightarrow> string" where
  "determineFrequency transactions =
     (if length transactions < 2 then ''unknown''
      else
        let totalDays = days_between (Date (transactions ! 0))
                          (Date (transactions ! (length transactions - 1)));
            avgDays = tdiv totalDays (int (length transactions) - 1)
        in if avgDays \<le> 8 then ''weekly''
           else if avgDays \<le> 35 then ''monthly''
           else if avgDays \<le> 95 then ''quarterly''
           else ''yearly'')"

text \<open>\<open>now\<close> is the day of \<open>time.Now()\<close>.\<close>

definition predictNextDue :: "int \<Rightarrow> 'a Transaction list \<Rightarrow> int" where
  "predictNextDue now transactions =
     (if length transactions < 2 then now
      else
        let totalDays = days_between (Date (transactions ! 0))
                          (Date (transactions ! (length transactions - 1)));
            avgDays = tdiv totalDays (int (length transactions) - 1)
        in Date (transactions ! 0) + avgDays)"

text \<open>
  The key \<open>fmt.Sprintf("%s_%.2f", strings.ToLower(txn.MerchantName), txn.Amount)\<close>;
  \<open>strings.ToLower\<close> and the rendering \<open>%.2f\<close> of an amount are parameters.
\<close>

definition group_key :: "(string \<Rightarrow> string) \<Rightarrow> ('a \<Rightarrow> string) \<Rightarrow> 'a Transaction \<Rightarrow> string" where
  "group_key ToLower Sprintf_2f txn = ToLower (MerchantName txn) @ ''_'' @ Sprintf_2f (Amount txn)"

text \<open>The first loop: \<open>groups[key] = append(groups[key], txn)\<close> for every transaction kept.\<close>

fun group_transactions ::
  "(string \<Rightarrow> string) \<Rightarrow> ('a::{zero,ord} \<Rightarrow> string) \<Rightarrow> 'a Transaction list \<Rightarrow>
     (string \<rightharpoonup> 'a Transaction list) \<Rightarrow> (string \<rightharpoonup> 'a Transaction list)" where
  "group_transactions ToLower Sprintf_2f [] groups = groups"
| "group_transactions ToLower Sprintf_2f (txn # transactions) groups =
     (if Pending txn \<or> Amount txn < 0 then group_transactions ToLower Sprintf_2f transactions groups
      else
        let key = group_key ToLower Sprintf_2f txn
        in group_transactions ToLower Sprintf_2f transactions
             (groups(key \<mapsto> (case groups key of None \<Rightarrow> [] | Some txns \<Rightarrow> txns) @ [txn])))"

text \<open>
  The body of the second loop for one group: the subscription it appends, if any. The
  fields are read from the slice after \<open>isRecurring\<close> has sorted it.
\<close>

definition detect_group :: "int \<Rightarrow> 'a Transaction list \<Rightarrow> 'a RecurringSubscription option" where
  "detect_group now txns =
     (if length txns < 2 then None
      else
        (case isRecurring txns of
           (recurring, txns') \<Rightarrow>
             if recurring then
               Some \<lparr>merchant_name = MerchantName (txns' ! 0),
                     amount = Amount (txns' ! 0),
                     frequency = determineFrequency txns',
                     last_charge = Date (txns' ! 0),
                     next_due = predictNextDue now txns',
                     category = Category (txns' ! 0)\<rparr>
             else None))"

text \<open>
  The second loop, \<open>for _, txns := range groups\<close>. Go visits the keys of a map in an
  order it does not specify, each key once: the order is the parameter \<open>keys\<close>, and
  \<open>range_order\<close> says that it is an order of the keys of the map.
\<close>

fun range_groups ::
  "(string \<rightharpoonup> 'a Transaction list) \<Rightarrow> int \<Rightarrow> string list \<Rightarrow> 'a RecurringSubscription list \<Rightarrow>
     'a RecurringSubscription list" where
  "range_groups groups now [] subscriptions = subscriptions"
| "range_groups groups now (key # keys) subscriptions =
     range_groups groups now keys
       (case groups key of
          None \<Rightarrow> subscriptions
        | Some txns \<Rightarrow>
            (case detect_group now txns of
               None \<Rightarrow> subscriptions
             | Some subscription \<Rightarrow> subscriptions @ [subscription]))"

definition range_order :: "(string \<rightharpoonup> 'v) \<Rightarrow> string list \<Rightarrow> bool" where
  "range_order groups keys \<longleftrightarrow> distinct keys \<and> set keys = dom groups"

definition DetectRecurringTransactions ::
  "(string \<Rightarrow> string) \<Rightarrow> ('a::{zero,ord} \<Rightarrow> string) \<Rightarrow> int \<Rightarrow> string list \<Rightarrow> 'a Transaction list \<Rightarrow>
     'a RecurringSubscription list" where
  "DetectRecurringTransactions ToLower Sprintf_2f now keys transactions =
     range_groups (group_transactions ToLower Sprintf_2f transactions Map.empty) now keys []"

subsection \<open>The two zeros of \<open>float64\<close>\<close>

text \<open>
  A \<open>float64\<close> that is a number, by its sign bit and its magnitude: \<open>0.0\<close> and \<open>-0.0\<close>
  differ in the sign bit only. Go's \<open><\<close> and \<open>==\<close> compare the values, so \<open>-0.0 == 0.0\<close>
  and neither is \<open>< 0\<close>.
\<close>

datatype float64 = Float64 (sign_bit: bool) (magnitude: real)

definition float64_value :: "float64 \<Rightarrow> real" where
  "float64_value x = (if sign_bit x then - magnitude x else magnitude x)"

instantiation float64 :: "{zero, ord}"
begin

definition zero_float64 :: float64 where
  "zero_float64 = Float64 False 0"

definition less_eq_float64 :: "float64 \<Rightarrow> float64 \<Rightarrow> bool" where
  "less_eq_float64 x y \<longleftrightarrow> float64_value x \<le> float64_value y"

definition less_float64 :: "float64 \<Rightarrow> float64 \<Rightarrow> bool" where
  "less_float64 x y \<longleftrightarrow> float64_value x < float64_value y"

instance ..

end

definition float64_eq :: "float64 \<Rightarrow> float64 \<Rightarrow> bool" where
  "float64_eq x y \<longleftrightarrow> float64_value x = float64_value y"

text \<open>
  The rendering \<open>%.2f\<close> of a zero: \<open>0.00\<close> for \<open>0.0\<close> and \<open>-0.00\<close> for \<open>-0.0\<close>. It is used on
  the two zeros only.
\<close>

definition sprintf_2f_zero :: "float64 \<Rightarrow> string" where
  "sprintf_2f_zero x = (if sign_bit x then ''-0.00'' else ''0.00'')"

text \<open>A settled charge of amount \<open>0.0\<close> or \<open>-0.0\<close> by one merchant, and two of them 30 days apart.\<close>

definition zero_charge :: "bool \<Rightarrow> int \<Rightarrow> float64 Transaction" where
  "zero_charge negative_zero day =
     \<lparr>ID = [], AccountID = [], Amount = Float64 negative_zero 0, Date = day, Name = ''Cafe'',
      MerchantName = ''Cafe'', Category = [], Pending = False, PaymentChannel = []\<rparr>"

definition zero_charges :: "float64 Transaction list" where
  "zero_charges = [zero_charge False 0, zero_charge True 30]"

subsection \<open>Notions for the detector\<close>

text \<open>
  The invariant of the outer sorting loop: the first \<open>i\<close> transactions are in descending
  order of date and none of them is older than any of the others.
\<close>

definition sorted_upto :: "nat \<Rightarrow> 'a Transaction list \<Rightarrow> bool" where
  "sorted_upto i ts \<longleftrightarrow>
     sorted_wrt (\<lambda>a b. Date b \<le> Date a) (take i ts)
     \<and> (\<forall>a \<in> set (take i ts). \<forall>b \<in> set (drop i ts). Date b \<le> Date a)"

text \<open>The day-gaps between the consecutive dates of a list.\<close>

fun consecutive_gaps :: "int list \<Rightarrow> int list" where
  "consecutive_gaps (d # d' # ds) = days_between d d' # consecutive_gaps (d' # ds)"
| "consecutive_gaps ds = []"

text \<open>
  Every gap is within 5 days of the average gap, the average being the sum of the gaps
  divided by their number with Go's truncating integer division.
\<close>

definition steady :: "int list \<Rightarrow> bool" where
  "steady gaps \<longleftrightarrow>
     (let average = tdiv (sum_list gaps) (int (length gaps))
      in list_all (\<lambda>gap. \<bar>gap - average\<bar> \<le> 5) gaps)"


text \<open>
  The days between the most recent and the oldest date of a group, and the average gap of
  the group: the span divided by the number of transactions less one, truncated.
\<close>

definition span_days :: "'a Transaction list \<Rightarrow> int" where
  "span_days txns = days_between (Max (Date ` set txns)) (Min (Date ` set txns))"

definition average_gap :: "'a Transaction list \<Rightarrow> int" where
  "average_gap txns = tdiv (span_days txns) (int (length txns) - 1)"

text \<open>
  A transaction that the first loop files under \<open>key\<close>: not pending, not of negative
  amount, and of that key.
\<close>

definition kept :: "(string \<Rightarrow> string) \<Rightarrow> ('a::{zero,ord} \<Rightarrow> string) \<Rightarrow> string \<Rightarrow> 'a Transaction \<Rightarrow> bool" where
  "kept ToLower Sprintf_2f key txn \<longleftrightarrow>
     \<not> Pending txn \<and> \<not> Amount txn < 0 \<and> group_key ToLower Sprintf_2f txn = key"

text \<open>\<open>groups[key]\<close>, the empty slice for a key that the map does not have.\<close>

definition group_of :: "(string \<rightharpoonup> 'v list) \<Rightarrow> string \<Rightarrow> 'v list" where
  "group_of groups key = (case groups key of None \<Rightarrow> [] | Some txns \<Rightarrow> txns)"

subsection \<open>Example transactions\<close>

text \<open>A settled charge of a merchant on a day.\<close>

definition charge :: "string \<Rightarrow> real \<Rightarrow> int \<Rightarrow> real Transaction" where
  "charge merchant a day =
     \<lparr>ID = [], AccountID = [], Amount = a, Date = day, Name = merchant, MerchantName = merchant,
      Category = [], Pending = False, PaymentChannel = []\<rparr>"

text \<open>\<open>strings.ToLower\<close> on the ASCII letters.\<close>

definition lower_ascii :: "string \<Rightarrow> string" where
  "lower_ascii s =
     map (\<lambda>c. if (65::nat) \<le> of_char c \<and> of_char c \<le> (90::nat)
              then char_of (of_char c + (32::nat)) else c) s"


text \<open>Scenario B: three charges of 9.99 by Spotify, 30 days apart, as the bank lists them.\<close>

definition spotify_charges :: "real Transaction list" where
  "spotify_charges =
     [charge ''Spotify'' (999 / 100) 19030, charge ''Spotify'' (999 / 100) 19000,
      charge ''Spotify'' (999 / 100) 19060]"

text \<open>The subscription of scenario B.\<close>

definition spotify_subscription :: "real RecurringSubscription" where
  "spotify_subscription =
     \<lparr>merchant_name = ''Spotify'', amount = 999 / 100, frequency = ''monthly'',
      last_charge = 19060, next_due = 19090, category = []\<rparr>"

text \<open>Two charges of one merchant 400 days apart, and the single charge of another.\<close>

definition lone_charge :: "real Transaction list" where
  "lone_charge =
     [charge ''Netflix'' (999 / 100) 0, charge ''Hulu'' (999 / 100) 3,
      charge ''Netflix'' (999 / 100) 400]"

section \<open>Arithmetic of \<open>wrap\<close> and \<open>quo\<close>\<close>

lemma wrap_id: "is_int x \<Longrightarrow> wrap x = x"
  by (simp add: wrap_def is_int_def)

lemma is_int_wrap: "is_int (wrap x)"
proof -
  have "0 \<le> (x + 2 ^ 63) mod (2 ^ 64 :: int)" and "(x + 2 ^ 63) mod (2 ^ 64 :: int) < 2 ^ 64"
    by simp_all
  then show ?thesis
    by (simp add: wrap_def is_int_def)
qed

lemma is_int_between: "is_int a \<Longrightarrow> is_int b \<Longrightarrow> a \<le> x \<Longrightarrow> x \<le> b \<Longrightarrow> is_int x"
  by (simp add: is_int_def)

lemma is_int_0: "is_int 0"
  by (simp add: is_int_def)

lemma wrap_0: "wrap 0 = 0"
  by (simp add: wrap_id is_int_0)

lemma wrap_between: "is_int b \<Longrightarrow> 0 \<le> x \<Longrightarrow> x \<le> b \<Longrightarrow> wrap x = x"
  using is_int_between [OF is_int_0] by (simp add: wrap_id)

lemma is_int_small: "0 \<le> x \<Longrightarrow> x \<le> T * 10000 \<Longrightarrow> T \<le> 922337203685477 \<Longrightarrow> is_int x"
  by (simp add: is_int_def)

lemma is_int_le: "0 \<le> x \<Longrightarrow> x \<le> T \<Longrightarrow> T \<le> 922337203685477 \<Longrightarrow> is_int x"
  by (simp add: is_int_def)

lemma quo_trunc:
  assumes "is_int a" "0 < b"
  shows "quo a b = sgn a * (\<bar>a\<bar> div b)"
proof -
  have 1: "0 \<le> \<bar>a\<bar> div b" using assms by (simp add: pos_imp_zdiv_nonneg_iff)
  have "\<bar>a\<bar> div b \<le> \<bar>a\<bar> div 1" using assms by (intro zdiv_mono2) auto
  then have 2: "\<bar>a\<bar> div b \<le> \<bar>a\<bar>" by simp
  have "is_int (sgn a * (\<bar>a\<bar> div b))"
    using 1 2 assms(1) by (auto simp: is_int_def sgn_if)
  then have "wrap (sgn a * (\<bar>a\<bar> div b)) = sgn a * (\<bar>a\<bar> div b)"
    by (rule wrap_id)
  then show ?thesis using assms(2) by (simp add: quo_def tdiv_def)
qed

lemma quo_nonneg:
  assumes "0 \<le> a" "is_int a" "0 < b"
  shows "quo a b = a div b"
  using assms by (simp add: quo_trunc sgn_if)

lemma bracket_walk_scanned:
  "\<exists>s'. bracket_walk taxableIncome (map Some bs) s = Inr s'"
proof (induction bs arbitrary: s)
  case Nil
  show ?case by (cases s) simp
next
  case (Cons b bs)
  obtain tax remaining segments where s: "s = (tax, remaining, segments)"
    by (metis prod_cases3)
  show ?case
  proof (cases "remaining \<le> 0")
    case True
    then show ?thesis by (simp add: s)
  next
    case False
    then show ?thesis using Cons.IH by (simp add: s Let_def)
  qed
qed

lemma federal_tax_scanned:
  "tax_tables_federal d year = Some (map Some fed) \<Longrightarrow>
     \<exists>t. federal_tax d year taxableIncome = Inr t"
  using bracket_walk_scanned [of taxableIncome fed "(0, taxableIncome, [])"]
  by (auto simp: federal_tax_def)

lemma state_tax_scanned:
  "state = [] \<or> tax_tables_state d year state = Some (map Some st) \<Longrightarrow>
     \<exists>t. state_tax d year state taxableIncome = Inr t"
  using bracket_walk_scanned [of taxableIncome st "(0, taxableIncome, [])"]
  by (auto simp: state_tax_def)

lemma bracket_walk_no_panic: "bracket_walk T rows s \<noteq> Inl DivideByZero"
  by (induction T rows s rule: bracket_walk.induct) (auto simp: Let_def)

lemma federal_tax_no_panic: "federal_tax d year t \<noteq> Inl DivideByZero"
  using bracket_walk_no_panic
  by (auto simp: federal_tax_def split: option.splits sum.splits)

lemma state_tax_no_panic: "state_tax d year state t \<noteq> Inl DivideByZero"
  using bracket_walk_no_panic
  by (auto simp: state_tax_def split: option.splits sum.splits)

lemma guarded_div_no_panic:
  "(if 0 < c then go_div n c else Inr 0) \<noteq> Inl DivideByZero"
  by (simp add: go_div_def)

lemma EstimateTaxes_no_panic:
  "EstimateTaxes d incomeCents state filingStatus year payFreq termWeeks \<noteq> Inl DivideByZero"
  using federal_tax_no_panic [of d year] state_tax_no_panic [of d year state]
    guarded_div_no_panic [of "checks payFreq termWeeks"]
  by (auto simp: EstimateTaxes_def Let_def split: option.splits sum.splits)

lemma checks_zero: "checks payFreq 0 = 0"
  by (simp add: checks_def quo_def tdiv_def wrap_def)

section \<open>Scenario A\<close>

lemma scenario_A_taxable: "taxable_income 5200000 1385000 = 3815000"
  by code_simp

lemma scenario_A_federal_walk:
  "bracket_walk 3815000 [Some \<lparr>bracket_low = 0, bracket_high = 0, rate_bps = 2200\<rparr>]
     (0, 3815000, []) = Inr (839300, 0, [3815000])"
  by code_simp

lemma scenario_A_state_walk:
  "bracket_walk 3815000 [Some \<lparr>bracket_low = 0, bracket_high = 0, rate_bps = 500\<rparr>]
     (0, 3815000, []) = Inr (190750, 0, [3815000])"
  by code_simp

lemma scenario_A_fica: "quo (wrap 3978000000) 10000 = 397800"
  by code_simp

lemma scenario_A_checks: "checks ''biweekly'' 12 = 6"
  by code_simp

lemma scenario_A_net: "wrap (5200000 - wrap (wrap 1030050 + 397800)) = 3772150"
  by code_simp

lemma scenario_A_per_pay: "go_div 3772150 6 = Inr 628691"
  by code_simp

text \<open>
  C1. With income 5,200,000 cents, standard deduction 1,385,000, one federal bracket
  \<open>{0, 0, 2200}\<close>, one state bracket \<open>{0, 0, 500}\<close> for a named state, filing status
  single, biweekly pay and a term of 12 weeks, \<open>EstimateTaxes\<close> returns federal 839,300,
  state 190,750, FICA 397,800, term net 3,772,150 and 628,691 per paycheck, over 6 checks.
\<close>

theorem scenario_A:
  assumes "std_deduction_single d year = Some 1385000"
    and "tax_tables_federal d year =
           Some [Some \<lparr>bracket_low = 0, bracket_high = 0, rate_bps = 2200\<rparr>]"
    and "tax_tables_state d year state =
           Some [Some \<lparr>bracket_low = 0, bracket_high = 0, rate_bps = 500\<rparr>]"
    and "state \<noteq> []"
  shows "EstimateTaxes d 5200000 state ''single'' year ''biweekly'' 12 =
           Inr \<lparr>FederalCents = 839300, StateCents = 190750, FicaCents = 397800,
                PerPaycheckNetCents = 628691, TermNetCents = 3772150\<rparr>
         \<and> checks ''biweekly'' 12 = 6"
proof -
  have fed: "federal_tax d year 3815000 = Inr 839300"
    using assms(2) by (simp only: federal_tax_def scenario_A_federal_walk option.case sum.case prod.case)
  have st: "state_tax d year state 3815000 = Inr 190750"
    using assms(3,4) by (simp only: state_tax_def scenario_A_state_walk option.case sum.case prod.case if_True not_False_eq_True)
  show ?thesis
    using assms(1)
    by (simp add: EstimateTaxes_def scenario_A_taxable fed st scenario_A_fica scenario_A_checks
        scenario_A_net scenario_A_per_pay)
qed

theorem scenario_A_witness:
  "EstimateTaxes scenario_A_db 5200000 ''NY'' ''single'' 2024 ''biweekly'' 12 =
     Inr \<lparr>FederalCents = 839300, StateCents = 190750, FicaCents = 397800,
          PerPaycheckNetCents = 628691, TermNetCents = 3772150\<rparr>
   \<and> checks ''biweekly'' 12 = 6"
  using scenario_A [of scenario_A_db 2024 "''NY''"] by (simp add: scenario_A_db_def)

section \<open>Filing status\<close>

text \<open>
  C8. A filing status other than single and married is rejected with the error
  "unsupported filing status", married with the different error "not yet supported". The
  result is the error whatever the database holds: no query is made and nothing is computed.
\<close>

theorem filing_status_rejected:
  "(filingStatus \<noteq> ''single'' \<and> filingStatus \<noteq> ''married'' \<longrightarrow>
      EstimateTaxes d incomeCents state filingStatus year payFreq termWeeks =
        Inl (UnsupportedFilingStatus filingStatus))
   \<and> EstimateTaxes d incomeCents state ''married'' year payFreq termWeeks =
        Inl MarriedNotYetSupported
   \<and> MarriedNotYetSupported \<noteq> UnsupportedFilingStatus filingStatus"
  by (simp add: EstimateTaxes_def)

theorem filing_status_rejected_witness:
  "EstimateTaxes scenario_A_db 5200000 ''NY'' ''head_of_household'' 2024 ''biweekly'' 12 =
     Inl (UnsupportedFilingStatus ''head_of_household'')
   \<and> EstimateTaxes scenario_A_db 5200000 ''NY'' ''married'' 2024 ''biweekly'' 12 =
     Inl MarriedNotYetSupported"
  using filing_status_rejected [of "''head_of_household''" scenario_A_db 5200000 "''NY''" 2024
      "''biweekly''" 12]
  by simp

section \<open>Paychecks\<close>

text \<open>
  C9. The number of paychecks is \<open>termWeeks\<close> for weekly pay, \<open>termWeeks / 2\<close> for biweekly,
  \<open>termWeeks / 4\<close> for monthly and \<open>termWeeks / 2\<close> for every other pay frequency, the
  quotient truncated towards zero. Weekly pay over 12 weeks is 12 checks. Whenever
  \<open>EstimateTaxes\<close> returns a result, its net pay per paycheck is the term net divided by
  this number of paychecks when the number is positive, and 0 otherwise; with a database
  that answers, it does return a result. A term of 0 weeks is 0 checks, and then the net
  pay per paycheck is 0; no call of \<open>EstimateTaxes\<close> divides by zero.
\<close>

theorem paycheck_count:
  "(is_int termWeeks \<longrightarrow>
      checks ''weekly'' termWeeks = termWeeks
    \<and> checks ''biweekly'' termWeeks = sgn termWeeks * (\<bar>termWeeks\<bar> div 2)
    \<and> checks ''monthly'' termWeeks = sgn termWeeks * (\<bar>termWeeks\<bar> div 4)
    \<and> (payFreq \<noteq> ''weekly'' \<and> payFreq \<noteq> ''biweekly'' \<and> payFreq \<noteq> ''monthly'' \<longrightarrow>
         checks payFreq termWeeks = sgn termWeeks * (\<bar>termWeeks\<bar> div 2)))
   \<and> checks ''weekly'' 12 = 12
   \<and> checks payFreq 0 = 0
   \<and> EstimateTaxes d incomeCents state filingStatus year payFreq termWeeks \<noteq> Inl DivideByZero
   \<and> (EstimateTaxes d incomeCents state filingStatus year payFreq termWeeks = Inr result \<longrightarrow>
        PerPaycheckNetCents result =
          (if 0 < checks payFreq termWeeks
           then quo (TermNetCents result) (checks payFreq termWeeks) else 0))
   \<and> (std_deduction_single d year = Some stdDeduction
      \<and> tax_tables_federal d year = Some (map Some fed)
      \<and> (state = [] \<or> tax_tables_state d year state = Some (map Some st)) \<longrightarrow>
      (\<exists>r. EstimateTaxes d incomeCents state ''single'' year payFreq termWeeks = Inr r)
      \<and> (\<exists>r. EstimateTaxes d incomeCents state ''single'' year payFreq 0 = Inr r
           \<and> PerPaycheckNetCents r = 0))"
proof -
  have a: "checks ''weekly'' termWeeks = termWeeks"
    by (simp add: checks_def)
  have b: "checks ''biweekly'' termWeeks = sgn termWeeks * (\<bar>termWeeks\<bar> div 2)"
    if "is_int termWeeks"
    using that by (simp add: checks_def quo_trunc)
  have c: "checks ''monthly'' termWeeks = sgn termWeeks * (\<bar>termWeeks\<bar> div 4)"
    if "is_int termWeeks"
    using that by (simp add: checks_def quo_trunc)
  have e: "checks payFreq termWeeks = sgn termWeeks * (\<bar>termWeeks\<bar> div 2)"
    if "is_int termWeeks" "payFreq \<noteq> ''weekly''" "payFreq \<noteq> ''biweekly''" "payFreq \<noteq> ''monthly''"
    using that by (simp add: checks_def quo_trunc)
  have f: "checks ''weekly'' 12 = 12"
    by (simp add: checks_def)
  have p: "PerPaycheckNetCents result =
          (if 0 < checks payFreq termWeeks
           then quo (TermNetCents result) (checks payFreq termWeeks) else 0)"
    if "EstimateTaxes d incomeCents state filingStatus year payFreq termWeeks = Inr result"
    using that
    by (auto simp: EstimateTaxes_def Let_def go_div_def split: if_splits option.splits sum.splits)
  have g: "(\<exists>r. EstimateTaxes d incomeCents state ''single'' year payFreq termWeeks = Inr r)
      \<and> (\<exists>r. EstimateTaxes d incomeCents state ''single'' year payFreq 0 = Inr r
           \<and> PerPaycheckNetCents r = 0)"
    if h: "std_deduction_single d year = Some stdDeduction"
      "tax_tables_federal d year = Some (map Some fed)"
      "state = [] \<or> tax_tables_state d year state = Some (map Some st)"
  proof -
    obtain ft where ft: "federal_tax d year (taxable_income incomeCents stdDeduction) = Inr ft"
      using federal_tax_scanned [OF h(2)] by blast
    obtain stt where stt: "state_tax d year state (taxable_income incomeCents stdDeduction) = Inr stt"
      using state_tax_scanned [OF h(3)] by blast
    have "\<exists>r. EstimateTaxes d incomeCents state ''single'' year payFreq termWeeks = Inr r"
      by (simp add: EstimateTaxes_def h(1) ft stt Let_def go_div_def)
    moreover have "\<exists>r. EstimateTaxes d incomeCents state ''single'' year payFreq 0 = Inr r
           \<and> PerPaycheckNetCents r = 0"
      by (simp add: EstimateTaxes_def h(1) ft stt checks_zero Let_def)
    ultimately show ?thesis ..
  qed
  show ?thesis
    using a b c e f p g checks_zero EstimateTaxes_no_panic by blast
qed

lemma scenario_A_monthly:
  "EstimateTaxes scenario_A_db 5200000 ''NY'' ''single'' 2024 ''monthly'' 12 =
     Inr \<lparr>FederalCents = 839300, StateCents = 190750, FicaCents = 397800,
          PerPaycheckNetCents = 1257383, TermNetCents = 3772150\<rparr>"
  by code_simp

lemma checks_monthly_12: "checks ''monthly'' 12 = 3"
  by code_simp

theorem paycheck_count_witness:
  "checks ''weekly'' (- 7) = - 7
   \<and> checks ''biweekly'' (- 7) = - 3
   \<and> checks ''monthly'' (- 7) = - 1
   \<and> checks ''daily'' (- 7) = - 3
   \<and> (\<exists>r. EstimateTaxes scenario_A_db 5200000 ''NY'' ''single'' 2024 ''daily'' 0 = Inr r
          \<and> PerPaycheckNetCents r = 0)
   \<and> (\<exists>r. EstimateTaxes scenario_A_db 5200000 ''NY'' ''single'' 2024 ''monthly'' 12 = Inr r
          \<and> PerPaycheckNetCents r = quo (TermNetCents r) 3)"
proof -
  let ?fed = "[\<lparr>bracket_low = 0, bracket_high = 0, rate_bps = 2200\<rparr>]"
  let ?st = "[\<lparr>bracket_low = 0, bracket_high = 0, rate_bps = 500\<rparr>]"
  let ?r = "\<lparr>FederalCents = 839300, StateCents = 190750, FicaCents = 397800,
          PerPaycheckNetCents = 1257383, TermNetCents = 3772150\<rparr>"
  have 1: "checks ''weekly'' (- 7) = - 7
   \<and> checks ''biweekly'' (- 7) = - 3
   \<and> checks ''monthly'' (- 7) = - 1
   \<and> checks ''daily'' (- 7) = - 3
   \<and> (\<exists>r. EstimateTaxes scenario_A_db 5200000 ''NY'' ''single'' 2024 ''daily'' 0 = Inr r
          \<and> PerPaycheckNetCents r = 0)"
    using paycheck_count [where termWeeks = "- 7" and payFreq = "''daily''" and d = scenario_A_db
        and incomeCents = 5200000 and state = "''NY''" and filingStatus = "''single''"
        and year = 2024 and stdDeduction = 1385000 and fed = ?fed and st = ?st]
    by (simp add: is_int_def scenario_A_db_def)
  have "PerPaycheckNetCents ?r = quo (TermNetCents ?r) 3"
    using paycheck_count [where termWeeks = 12 and payFreq = "''monthly''" and d = scenario_A_db
        and incomeCents = 5200000 and state = "''NY''" and filingStatus = "''single''"
        and year = 2024 and result = ?r]
      scenario_A_monthly
    by (simp only: checks_monthly_12) simp
  then have 2: "\<exists>r. EstimateTaxes scenario_A_db 5200000 ''NY'' ''single'' 2024 ''monthly'' 12 = Inr r
          \<and> PerPaycheckNetCents r = quo (TermNetCents r) 3"
    using scenario_A_monthly by blast
  show ?thesis using 1 2 by blast
qed

section \<open>The bracket walk over a covering table\<close>

lemma covers_chain_aux:
  "bs \<noteq> [] \<Longrightarrow> sorted (map bracket_low bs) \<Longrightarrow> contiguous bs \<Longrightarrow>
     bracket_high (last bs) = 0 \<Longrightarrow> chain (bracket_low (hd bs)) bs"
proof (induction bs)
  case Nil
  then show ?case by simp
next
  case (Cons b bs)
  show ?case
  proof (cases bs)
    case Nil
    with Cons.prems show ?thesis by simp
  next
    case (Cons b' bs')
    with Cons.prems Cons.IH show ?thesis by simp
  qed
qed

lemma covers_chain: "covers bs \<Longrightarrow> chain 0 bs"
  using covers_chain_aux [of bs] by (auto simp: covers_def)

lemma walk_break: "r \<le> 0 \<Longrightarrow> bracket_walk T (Some b # rows) (t, r, s) = Inr (t, r, s)"
  by simp

lemma walk_step:
  "0 < r \<Longrightarrow>
   bracket_walk T (Some b # rows) (t, r, s) =
     bracket_walk T rows
       (wrap (t + quo (wrap (min r (wrap ((if bracket_high b = 0 then T else bracket_high b) - bracket_low b)) * rate_bps b)) 10000),
        wrap (r - min r (wrap ((if bracket_high b = 0 then T else bracket_high b) - bracket_low b))),
        s @ [min r (wrap ((if bracket_high b = 0 then T else bracket_high b) - bracket_low b))])"
  by (simp add: Let_def)

lemma walk_cover:
  assumes "chain l bs" and "list_all bracket_ints bs" and "0 \<le> l" and "is_int T"
    and "r = 0 \<or> 0 < r \<and> r = T - l"
  shows "\<exists>t' s'. bracket_walk T (map Some bs) (t, r, s) = Inr (t', 0, s @ s')
           \<and> sum_list s' = r \<and> list_all (\<lambda>x. 0 \<le> x) s'"
  using assms
proof (induction l bs arbitrary: r t s rule: chain.induct)
  case (1 l)
  then show ?case by simp
next
  case (2 l b)
  show ?case
  proof (cases "r = 0")
    case True
    then show ?thesis by simp
  next
    case False
    with "2.prems" have r: "0 < r" "r = T - l" by auto
    have low: "bracket_low b = l" and high: "bracket_high b = 0"
      using "2.prems"(1) by auto
    have w: "wrap (T - l) = T - l"
      using r "2.prems"(3,4) by (intro wrap_between [of T]) auto
    show ?thesis
      using r by (simp add: walk_step low high w wrap_0 del: bracket_walk.simps(3))
  qed
next
  case (3 l b b' bs)
  let ?h = "bracket_high b"
  have low: "bracket_low b = l" and lh: "l \<le> ?h" and ch: "chain ?h (b' # bs)"
    using "3.prems"(1) by auto
  have ints: "list_all bracket_ints (b' # bs)"
    using "3.prems"(2) by simp
  have "bracket_ints b"
    using "3.prems"(2) by simp
  then have hi: "is_int ?h"
    by (simp add: bracket_ints_def)
  show ?case
  proof (cases "r = 0")
    case True
    then show ?thesis by simp
  next
    case False
    with "3.prems" have r: "0 < r" "r = T - l" by auto
    show ?thesis
    proof (cases "?h = 0")
      case True
      then have l0: "l = 0" using lh "3.prems"(3) by simp
      have w: "wrap T = T" using "3.prems"(4) by (rule wrap_id)
      have h0: "0 \<le> ?h" using True by simp
      have r0: "(0::int) = 0 \<or> 0 < (0::int) \<and> 0 = T - ?h" by simp
      obtain t' s' where
        "bracket_walk T (map Some (b' # bs)) (wrap (t + quo (wrap (T * rate_bps b)) 10000), 0, s @ [T])
           = Inr (t', 0, (s @ [T]) @ s')" "sum_list s' = 0" "list_all (\<lambda>x. 0 \<le> x) s'"
        using "3.IH" [OF ch ints h0 "3.prems"(4) r0] by blast
      then show ?thesis
        using r l0 True low w
        by (simp add: walk_step wrap_0 del: bracket_walk.simps(3))
    next
      case False
      then have hpos: "0 < ?h" using lh "3.prems"(3) by simp
      have w: "wrap (?h - l) = ?h - l"
        using hi lh "3.prems"(3) by (intro wrap_between [of ?h]) auto
      let ?seg = "min r (?h - l)"
      have w2: "wrap (r - ?seg) = r - ?seg"
        using r lh "3.prems"(3,4) by (intro wrap_between [of T]) auto
      have h0: "0 \<le> ?h" using hpos by simp
      have nr: "r - ?seg = 0 \<or> 0 < r - ?seg \<and> r - ?seg = T - ?h"
        using r by auto
      obtain t' s' where
        "bracket_walk T (map Some (b' # bs)) (wrap (t + quo (wrap (?seg * rate_bps b)) 10000), r - ?seg, s @ [?seg])
           = Inr (t', 0, (s @ [?seg]) @ s')" "sum_list s' = r - ?seg" "list_all (\<lambda>x. 0 \<le> x) s'"
        using "3.IH" [OF ch ints h0 "3.prems"(4) nr] by blast
      then show ?thesis
        using r False low w w2 lh
        by (simp add: walk_step del: bracket_walk.simps(3))
    qed
  qed
qed

lemma walk_segments_taxed:
  "bracket_walk T (map Some bs) (t, r, s) = Inr (t', r', s') \<Longrightarrow>
     \<exists>s''. s' = s @ s'' \<and> length s'' \<le> length bs \<and> t' = tax_of_segments t (zip s'' bs)"
proof (induction bs arbitrary: t r s)
  case Nil
  then show ?case by (simp add: tax_of_segments_def)
next
  case (Cons b bs)
  show ?case
  proof (cases "r \<le> 0")
    case True
    with Cons.prems show ?thesis by (simp add: tax_of_segments_def)
  next
    case False
    let ?seg = "min r (wrap ((if bracket_high b = 0 then T else bracket_high b) - bracket_low b))"
    let ?t1 = "wrap (t + quo (wrap (?seg * rate_bps b)) 10000)"
    have "bracket_walk T (map Some bs) (?t1, wrap (r - ?seg), s @ [?seg]) = Inr (t', r', s')"
      using Cons.prems False by (simp add: Let_def)
    then obtain s3 where s3: "s' = (s @ [?seg]) @ s3" "length s3 \<le> length bs"
      "t' = tax_of_segments ?t1 (zip s3 bs)"
      using Cons.IH by blast
    then have "s' = s @ (?seg # s3) \<and> length (?seg # s3) \<le> length (b # bs)
        \<and> t' = tax_of_segments t (zip (?seg # s3) (b # bs))"
      by (simp add: tax_of_segments_def)
    then show ?thesis by blast
  qed
qed

text \<open>
  C2. For every taxable income \<open>\<ge> 0\<close> and every bracket table that is sorted ascending by
  low bound and covers \<open>[0, \<infinity>)\<close> without gap or overlap, the walk ends with nothing
  remaining, the segments it taxed are non-negative and add up to exactly the taxable
  income, and the tax is what these segments accumulate, each at the rate of its bracket.
\<close>

theorem bracket_coverage:
  assumes "0 \<le> taxableIncome" and "is_int taxableIncome"
    and "covers bs" and "list_all bracket_ints bs"
  shows "\<exists>tax segments.
           bracket_walk taxableIncome (map Some bs) (0, taxableIncome, []) = Inr (tax, 0, segments)
           \<and> sum_list segments = taxableIncome
           \<and> list_all (\<lambda>segment. 0 \<le> segment) segments
           \<and> length segments \<le> length bs
           \<and> tax = tax_of_segments 0 (zip segments bs)"
proof -
  have r: "taxableIncome = 0 \<or> 0 < taxableIncome \<and> taxableIncome = taxableIncome - 0"
    using assms(1) by auto
  have z: "(0::int) \<le> 0" by simp
  obtain t' s' where w: "bracket_walk taxableIncome (map Some bs) (0, taxableIncome, []) = Inr (t', 0, [] @ s')"
    and s: "sum_list s' = taxableIncome" "list_all (\<lambda>x. 0 \<le> x) s'"
    using walk_cover [OF covers_chain [OF assms(3)] assms(4) z assms(2) r] by blast
  obtain s'' where "[] @ s' = [] @ s''" "length s'' \<le> length bs" "t' = tax_of_segments 0 (zip s'' bs)"
    using walk_segments_taxed [OF w] by blast
  then show ?thesis using w s by simp
qed

theorem bracket_coverage_witness:
  "covers brackets_2023
   \<and> (\<exists>tax segments.
         bracket_walk 5000000 (map Some brackets_2023) (0, 5000000, []) = Inr (tax, 0, segments)
         \<and> sum_list segments = 5000000
         \<and> list_all (\<lambda>segment. 0 \<le> segment) segments
         \<and> length segments \<le> length brackets_2023
         \<and> tax = tax_of_segments 0 (zip segments brackets_2023))"
proof -
  have c: "covers brackets_2023"
    by (simp add: covers_def brackets_2023_def)
  have i: "list_all bracket_ints brackets_2023"
    by (simp add: brackets_2023_def bracket_ints_def is_int_def)
  have "(0::int) \<le> 5000000" and "is_int 5000000"
    by (simp_all add: is_int_def)
  then show ?thesis
    using bracket_coverage [OF _ _ c i, of 5000000] c by blast
qed

section \<open>Monotonicity of the total tax\<close>

lemma step_tax_bounds:
  assumes "0 \<le> seg" and "rate_ok b"
  shows "0 \<le> seg * rate_bps b" and "seg * rate_bps b \<le> seg * 10000"
    and "0 \<le> seg * rate_bps b div 10000" and "seg * rate_bps b div 10000 \<le> seg"
proof -
  show 1: "0 \<le> seg * rate_bps b"
    using assms by (simp add: rate_ok_def)
  show 2: "seg * rate_bps b \<le> seg * 10000"
    using assms by (simp add: rate_ok_def mult_left_mono)
  show "0 \<le> seg * rate_bps b div 10000"
    using 1 by (simp add: pos_imp_zdiv_nonneg_iff)
  have "seg * rate_bps b div 10000 \<le> seg * 10000 div 10000"
    using 2 by (intro zdiv_mono1) auto
  then show "seg * rate_bps b div 10000 \<le> seg"
    by simp
qed

lemma walk_step_exact:
  assumes "0 < r" and "0 \<le> t" and "t + r \<le> T" and "T \<le> 922337203685477" and "rate_ok b"
    and "seg = min r (wrap ((if bracket_high b = 0 then T else bracket_high b) - bracket_low b))"
    and "0 \<le> seg"
  shows "bracket_walk T (Some b # rows) (t, r, s) =
           bracket_walk T rows (t + seg * rate_bps b div 10000, r - seg, s @ [seg])"
proof -
  have segr: "seg \<le> r" using assms(6) by simp
  have segT: "seg \<le> T" using segr assms(2,3) by simp
  note sb = step_tax_bounds [OF assms(7) assms(5)]
  have "seg * 10000 \<le> T * 10000"
    using segT by simp
  then have "seg * rate_bps b \<le> T * 10000"
    using sb(2) by linarith
  then have i1: "is_int (seg * rate_bps b)"
    using sb(1) assms(4) by (intro is_int_small [of _ T])
  have q: "quo (wrap (seg * rate_bps b)) 10000 = seg * rate_bps b div 10000"
    using i1 sb(1) by (simp add: wrap_id quo_nonneg)
  have "t + seg * rate_bps b div 10000 \<le> T"
    using sb(4) segr assms(2,3) by simp
  then have i2: "is_int (t + seg * rate_bps b div 10000)"
    using sb(3) assms(2,4) by (intro is_int_le [of _ T]) auto
  have "r - seg \<le> T"
    using assms(2,3,7) by simp
  then have i3: "is_int (r - seg)"
    using segr assms(4) by (intro is_int_le [of _ T]) auto
  show ?thesis
    using assms(1) assms(6) [symmetric] q i2 i3
    by (simp add: walk_step wrap_id del: bracket_walk.simps(3))
qed

lemma walk_bounded:
  assumes "chain l bs" and "list_all bracket_ints bs" and "list_all rate_ok bs" and "0 \<le> l"
    and "T \<le> 922337203685477"
    and "r = 0 \<or> 0 < r \<and> r = T - l" and "0 \<le> t" and "t + r \<le> T"
  shows "\<exists>t' s'. bracket_walk T (map Some bs) (t, r, s) = Inr (t', 0, s') \<and> t \<le> t' \<and> t' \<le> T"
  using assms
proof (induction l bs arbitrary: r t s rule: chain.induct)
  case (1 l)
  then show ?case by simp
next
  case (2 l b)
  show ?case
  proof (cases "r = 0")
    case True
    then show ?thesis using "2.prems"(8) by simp
  next
    case False
    with "2.prems" have r: "0 < r" "r = T - l" by auto
    have low: "bracket_low b = l" and high: "bracket_high b = 0"
      using "2.prems"(1) by auto
    have T: "is_int T"
      using r "2.prems"(4,5) by (intro is_int_le [of T T]) auto
    have w: "wrap (T - l) = T - l"
      using r "2.prems"(4) T by (intro wrap_between [of T]) auto
    have rk: "rate_ok b" using "2.prems"(3) by simp
    have seg: "r = min r (wrap ((if bracket_high b = 0 then T else bracket_high b) - bracket_low b))"
      using r by (simp add: low high w)
    have "0 \<le> r" using r by simp
    note sb = step_tax_bounds [OF this rk]
    have "bracket_walk T (map Some [b]) (t, r, s) = Inr (t + r * rate_bps b div 10000, 0, s @ [r])"
      using walk_step_exact [OF r(1) "2.prems"(7,8,5) rk seg, of "[]" s] r by simp
    then show ?thesis using sb(3,4) "2.prems"(8) by simp
  qed
next
  case (3 l b b' bs)
  let ?h = "bracket_high b"
  have low: "bracket_low b = l" and lh: "l \<le> ?h" and ch: "chain ?h (b' # bs)"
    using "3.prems"(1) by auto
  have ints: "list_all bracket_ints (b' # bs)"
    using "3.prems"(2) by simp
  have rates: "list_all rate_ok (b' # bs)" and rk: "rate_ok b"
    using "3.prems"(3) by simp_all
  have "bracket_ints b"
    using "3.prems"(2) by simp
  then have hi: "is_int ?h"
    by (simp add: bracket_ints_def)
  have h0: "0 \<le> ?h" using lh "3.prems"(4) by simp
  show ?case
  proof (cases "r = 0")
    case True
    then show ?thesis using "3.prems"(8) by simp
  next
    case False
    with "3.prems" have r: "0 < r" "r = T - l" by auto
    have T: "is_int T"
      using r "3.prems"(4,5) by (intro is_int_le [of T T]) auto
    define seg where "seg = (if ?h = 0 then r else min r (?h - l))"
    have w: "wrap ((if ?h = 0 then T else ?h) - bracket_low b) = (if ?h = 0 then T - l else ?h - l)"
    proof (cases "?h = 0")
      case True
      have "wrap (T - l) = T - l"
        using r "3.prems"(4) T by (intro wrap_between [of T]) auto
      then show ?thesis using True low by simp
    next
      case False
      have "wrap (?h - l) = ?h - l"
        using hi lh "3.prems"(4) by (intro wrap_between [of ?h]) auto
      then show ?thesis using False low by simp
    qed
    have seg: "seg = min r (wrap ((if ?h = 0 then T else ?h) - bracket_low b))"
      using r by (simp add: w seg_def)
    have seg0: "0 \<le> seg" and segr: "seg \<le> r"
      using r lh by (auto simp: seg_def)
    note sb = step_tax_bounds [OF seg0 rk]
    have step: "bracket_walk T (map Some (b # b' # bs)) (t, r, s) =
        bracket_walk T (map Some (b' # bs)) (t + seg * rate_bps b div 10000, r - seg, s @ [seg])"
      using walk_step_exact [OF r(1) "3.prems"(7,8,5) rk seg seg0] by simp
    have nr: "r - seg = 0 \<or> 0 < r - seg \<and> r - seg = T - ?h"
      using r by (auto simp: seg_def)
    have t0: "0 \<le> t + seg * rate_bps b div 10000"
      using sb(3) "3.prems"(7) by simp
    have tb: "t + seg * rate_bps b div 10000 + (r - seg) \<le> T"
      using sb(4) "3.prems"(8) by simp
    obtain t' s' where
      "bracket_walk T (map Some (b' # bs)) (t + seg * rate_bps b div 10000, r - seg, s @ [seg])
         = Inr (t', 0, s')" "t + seg * rate_bps b div 10000 \<le> t'" "t' \<le> T"
      using "3.IH" [OF ch ints rates h0 "3.prems"(5) nr t0 tb] by blast
    then show ?thesis
      using step sb(3) by (auto simp del: bracket_walk.simps(3))
  qed
qed

lemma chain_step:
  assumes "chain l (b # bs)" and "list_all bracket_ints (b # bs)" and "rate_ok b" and "0 \<le> l"
    and "T \<le> 922337203685477" and "0 < r" and "r = T - l" and "0 \<le> t" and "t + r \<le> T"
    and "seg = (if bracket_high b = 0 then r else min r (bracket_high b - l))"
  shows "bracket_walk T (map Some (b # bs)) (t, r, s) =
           bracket_walk T (map Some bs) (t + seg * rate_bps b div 10000, r - seg, s @ [seg])"
    and "0 \<le> seg" and "seg \<le> r"
proof -
  let ?h = "bracket_high b"
  have low: "bracket_low b = l" and lh: "?h \<noteq> 0 \<longrightarrow> l \<le> ?h"
    using assms(1) by (cases bs; simp)+
  have "bracket_ints b"
    using assms(2) by simp
  then have hi: "is_int ?h"
    by (simp add: bracket_ints_def)
  have T: "is_int T"
    using assms(4,5,6,7) by (intro is_int_le [of T T]) auto
  have w: "wrap ((if ?h = 0 then T else ?h) - bracket_low b) = (if ?h = 0 then T - l else ?h - l)"
  proof (cases "?h = 0")
    case True
    have "wrap (T - l) = T - l"
      using assms(4,6,7) T by (intro wrap_between [of T]) auto
    then show ?thesis using True low by simp
  next
    case False
    have "wrap (?h - l) = ?h - l"
      using hi lh False assms(4) by (intro wrap_between [of ?h]) auto
    then show ?thesis using False low by simp
  qed
  have seg: "seg = min r (wrap ((if ?h = 0 then T else ?h) - bracket_low b))"
    using assms(7) by (simp add: w assms(10))
  show seg0: "0 \<le> seg" and "seg \<le> r"
    using assms(6) lh by (auto simp: assms(10))
  show "bracket_walk T (map Some (b # bs)) (t, r, s) =
           bracket_walk T (map Some bs) (t + seg * rate_bps b div 10000, r - seg, s @ [seg])"
    using walk_step_exact [OF assms(6,8,9,5,3) seg seg0] by simp
qed

lemma step_tax_mono:
  assumes "sa \<le> sb" and "rate_ok b" and "ta \<le> tb"
  shows "ta + sa * rate_bps b div 10000 \<le> tb + sb * rate_bps b div (10000::int)"
proof -
  have "sa * rate_bps b \<le> sb * rate_bps b"
    using assms(1,2) by (simp add: rate_ok_def mult_right_mono)
  then have "sa * rate_bps b div 10000 \<le> sb * rate_bps b div 10000"
    by (intro zdiv_mono1) auto
  then show ?thesis using assms(3) by simp
qed

lemma walk_mono:
  assumes "chain l bs" and "list_all bracket_ints bs" and "list_all rate_ok bs" and "0 \<le> l"
    and "Tb \<le> 922337203685477" and "Ta \<le> Tb"
    and "ra = 0 \<or> 0 < ra \<and> ra = Ta - l" and "rb = 0 \<or> 0 < rb \<and> rb = Tb - l" and "ra \<le> rb"
    and "0 \<le> ta" and "ta \<le> tb" and "ta + ra \<le> Ta" and "tb + rb \<le> Tb"
  shows "\<exists>ta' tb' sa' sb'.
           bracket_walk Ta (map Some bs) (ta, ra, sa) = Inr (ta', 0, sa')
           \<and> bracket_walk Tb (map Some bs) (tb, rb, sb) = Inr (tb', 0, sb')
           \<and> ta' \<le> tb'"
  using assms
proof (induction bs arbitrary: l ra rb ta tb sa sb)
  case Nil
  then show ?case by simp
next
  case (Cons b bs)
  have tb0: "0 \<le> tb" using Cons.prems(10,11) by simp
  obtain tb' sb' where wb: "bracket_walk Tb (map Some (b # bs)) (tb, rb, sb) = Inr (tb', 0, sb')"
    and tb': "tb \<le> tb'"
    using walk_bounded [OF Cons.prems(1,2,3,4,5,8) tb0 Cons.prems(13)] by blast
  show ?case
  proof (cases "ra = 0")
    case True
    then have "bracket_walk Ta (map Some (b # bs)) (ta, ra, sa) = Inr (ta, 0, sa)"
      by simp
    then show ?thesis using wb tb' Cons.prems(11) by auto
  next
    case False
    then have ra: "0 < ra" "ra = Ta - l" using Cons.prems(7) by auto
    then have rb: "0 < rb" "rb = Tb - l" using Cons.prems(8,9) by auto
    have Ta: "Ta \<le> 922337203685477" using Cons.prems(5,6) by simp
    have rk: "rate_ok b" and rates: "list_all rate_ok bs"
      using Cons.prems(3) by simp_all
    have ints: "list_all bracket_ints bs"
      using Cons.prems(2) by simp
    let ?h = "bracket_high b"
    define sga where "sga = (if ?h = 0 then ra else min ra (?h - l))"
    define sgb where "sgb = (if ?h = 0 then rb else min rb (?h - l))"
    note a = chain_step [OF Cons.prems(1,2) rk Cons.prems(4) Ta ra Cons.prems(10,12) sga_def]
    note b = chain_step [OF Cons.prems(1,2) rk Cons.prems(4,5) rb tb0 Cons.prems(13) sgb_def]
    have sg: "sga \<le> sgb"
      using Cons.prems(9) by (auto simp: sga_def sgb_def)
    note tm = step_tax_mono [OF sg rk Cons.prems(11)]
    note sba = step_tax_bounds [OF a(2) rk]
    note sbb = step_tax_bounds [OF b(2) rk]
    show ?thesis
    proof (cases bs)
      case Nil
      then have h: "?h = 0" using Cons.prems(1) by simp
      have "bracket_walk Ta (map Some (b # bs)) (ta, ra, sa) =
          bracket_walk Ta (map Some bs) (ta + sga * rate_bps b div 10000, ra - sga, sa @ [sga])"
        by (rule a(1))
      also have "\<dots> = Inr (ta + sga * rate_bps b div 10000, 0, sa @ [sga])"
        using h Nil by (simp add: sga_def)
      finally have wa: "bracket_walk Ta (map Some (b # bs)) (ta, ra, sa) =
          Inr (ta + sga * rate_bps b div 10000, 0, sa @ [sga])" .
      have "bracket_walk Tb (map Some (b # bs)) (tb, rb, sb) =
          bracket_walk Tb (map Some bs) (tb + sgb * rate_bps b div 10000, rb - sgb, sb @ [sgb])"
        by (rule b(1))
      also have "\<dots> = Inr (tb + sgb * rate_bps b div 10000, 0, sb @ [sgb])"
        using h Nil by (simp add: sgb_def)
      finally have "bracket_walk Tb (map Some (b # bs)) (tb, rb, sb) =
          Inr (tb + sgb * rate_bps b div 10000, 0, sb @ [sgb])" .
      then show ?thesis using wa tm by blast
    next
      case (Cons b' bs')
      then have ch: "chain ?h bs" and lh: "l \<le> ?h"
        using Cons.prems(1) by auto
      have h0: "0 \<le> ?h" using lh Cons.prems(4) by simp
      have nra: "ra - sga = 0 \<or> 0 < ra - sga \<and> ra - sga = Ta - ?h"
        using ra by (auto simp: sga_def)
      have nrb: "rb - sgb = 0 \<or> 0 < rb - sgb \<and> rb - sgb = Tb - ?h"
        using rb by (auto simp: sgb_def)
      have nr: "ra - sga \<le> rb - sgb"
        using ra rb Cons.prems(6) by (auto simp: sga_def sgb_def)
      have ta0: "0 \<le> ta + sga * rate_bps b div 10000"
        using sba(3) Cons.prems(10) by simp
      have tba: "ta + sga * rate_bps b div 10000 + (ra - sga) \<le> Ta"
        using sba(4) Cons.prems(12) by simp
      have tbb: "tb + sgb * rate_bps b div 10000 + (rb - sgb) \<le> Tb"
        using sbb(4) Cons.prems(13) by simp
      show ?thesis
        using Cons.IH [OF ch ints rates h0 Cons.prems(5,6) nra nrb nr ta0 tm tba tbb,
            of "sa @ [sga]" "sb @ [sgb]"]
        by (simp only: a(1) [of sa] b(1) [of sb])
    qed
  qed
qed

lemma table_mono:
  assumes "table_ok bs" and "0 \<le> Ta" and "Ta \<le> Tb" and "Tb \<le> 922337203685477"
  shows "\<exists>ta tb ra rb sa sb.
           bracket_walk Ta (map Some bs) (0, Ta, []) = Inr (ta, ra, sa)
           \<and> bracket_walk Tb (map Some bs) (0, Tb, []) = Inr (tb, rb, sb)
           \<and> ta \<le> tb \<and> 0 \<le> ta \<and> tb \<le> Tb"
proof (cases "bs = []")
  case True
  then show ?thesis using assms(2,3) by simp
next
  case False
  then have ch: "chain 0 bs" and ints: "list_all bracket_ints bs" and rates: "list_all rate_ok bs"
    using assms(1) covers_chain by (auto simp: table_ok_def)
  have z: "(0::int) \<le> 0" by simp
  have Ta: "Ta \<le> 922337203685477" using assms(3,4) by simp
  have ra: "Ta = 0 \<or> 0 < Ta \<and> Ta = Ta - 0" using assms(2) by auto
  have rb: "Tb = 0 \<or> 0 < Tb \<and> Tb = Tb - 0" using assms(2,3) by auto
  have ba: "0 + Ta \<le> Ta" and bb: "0 + Tb \<le> Tb" by simp_all
  obtain ta tb sa sb where w: "bracket_walk Ta (map Some bs) (0, Ta, []) = Inr (ta, 0, sa)"
    "bracket_walk Tb (map Some bs) (0, Tb, []) = Inr (tb, 0, sb)" "ta \<le> tb"
    using walk_mono [OF ch ints rates z assms(4,3) ra rb assms(3) z z ba bb] by blast
  have "0 \<le> ta"
    using walk_bounded [OF ch ints rates z Ta ra z ba, of "[]"] w(1) by auto
  moreover have "tb \<le> Tb"
    using walk_bounded [OF ch ints rates z assms(4) rb z bb, of "[]"] w(2) by auto
  ultimately show ?thesis using w by blast
qed

lemma taxable_income_exact:
  assumes "0 \<le> stdDeduction" and "is_int stdDeduction" and "0 \<le> x" and "x \<le> 922337203685477"
  shows "taxable_income x stdDeduction = max 0 (x - stdDeduction)"
proof -
  have "is_int (x - stdDeduction)"
    using assms by (simp add: is_int_def)
  then show ?thesis
    by (simp add: taxable_income_def wrap_id Let_def max_def)
qed

lemma fica_exact:
  assumes "0 \<le> x" and "x \<le> 922337203685477"
  shows "quo (wrap (x * 765)) 10000 = x * 765 div 10000"
proof -
  have "x * 765 \<le> x * 10000"
    using assms(1) by (intro mult_left_mono) auto
  then have "is_int (x * 765)"
    using assms by (intro is_int_small [of _ x]) auto
  then show ?thesis
    using assms(1) by (simp add: wrap_id quo_nonneg)
qed

lemma guarded_div_returns: "\<exists>p. (if 0 < c then go_div n c else Inr 0) = Inr p"
  by (simp add: go_div_def)

lemma EstimateTaxes_single:
  assumes "std_deduction_single d year = Some stdDeduction"
    and "federal_tax d year (taxable_income x stdDeduction) = Inr f"
    and "state_tax d year state (taxable_income x stdDeduction) = Inr s"
  shows "\<exists>r. EstimateTaxes d x state ''single'' year payFreq termWeeks = Inr r
           \<and> FederalCents r = f \<and> StateCents r = s
           \<and> FicaCents r = quo (wrap (x * 765)) 10000"
proof -
  obtain p where
    "(if 0 < checks payFreq termWeeks
      then go_div (wrap (x - wrap (wrap (f + s) + quo (wrap (x * 765)) 10000)))
             (checks payFreq termWeeks)
      else Inr 0) = Inr p"
    using guarded_div_returns by blast
  then show ?thesis
    by (simp add: EstimateTaxes_def assms Let_def)
qed

lemma federal_tax_mono:
  assumes "tax_tables_federal d year = Some (map Some fed)" and "table_ok fed"
    and "0 \<le> Ta" and "Ta \<le> Tb" and "Tb \<le> 922337203685477"
  shows "\<exists>fa fb. federal_tax d year Ta = Inr fa \<and> federal_tax d year Tb = Inr fb \<and> fa \<le> fb"
  using table_mono [OF assms(2,3,4,5)] by (auto simp: federal_tax_def assms(1))

lemma state_tax_mono:
  assumes "state = [] \<or> tax_tables_state d year state = Some (map Some st) \<and> table_ok st"
    and "0 \<le> Ta" and "Ta \<le> Tb" and "Tb \<le> 922337203685477"
  shows "\<exists>sa sb. state_tax d year state Ta = Inr sa \<and> state_tax d year state Tb = Inr sb
           \<and> sa \<le> sb"
proof (cases "state = []")
  case True
  then show ?thesis by (simp add: state_tax_def)
next
  case False
  then have t: "tax_tables_state d year state = Some (map Some st)" and ok: "table_ok st"
    using assms(1) by auto
  show ?thesis
    using table_mono [OF ok assms(2,3,4)] False by (auto simp: state_tax_def t)
qed

text \<open>
  C3, as amended. Let the standard deduction be non-negative, let the federal table and
  the table of the state (for a named state) be empty or cover \<open>[0, \<infinity>)\<close>, with every
  rate between 0 and 10000 basis points, and let \<open>0 \<le> a \<le> b \<le> 922,337,203,685,477\<close>
  cents, the largest income whose product with 10000 fits Go's \<open>int\<close>. Then \<open>EstimateTaxes\<close>
  returns a result for both incomes, for a single filer and any pay schedule, and
  \<open>federalCents + stateCents + ficaCents\<close> for \<open>a\<close> is at most that for \<open>b\<close>.
\<close>

theorem total_tax_monotone:
  assumes "std_deduction_single d year = Some stdDeduction"
    and "0 \<le> stdDeduction" and "is_int stdDeduction"
    and "tax_tables_federal d year = Some (map Some fed)" and "table_ok fed"
    and "state = [] \<or> tax_tables_state d year state = Some (map Some st) \<and> table_ok st"
    and "0 \<le> a" and "a \<le> b" and "b \<le> 922337203685477"
  shows "\<exists>ra rb.
           EstimateTaxes d a state ''single'' year payFreq termWeeks = Inr ra
           \<and> EstimateTaxes d b state ''single'' year payFreq termWeeks = Inr rb
           \<and> total_tax ra \<le> total_tax rb"
proof -
  let ?Ta = "taxable_income a stdDeduction" and ?Tb = "taxable_income b stdDeduction"
  have a': "a \<le> 922337203685477" and b0: "0 \<le> b"
    using assms(7,8,9) by simp_all
  have Ta: "?Ta = max 0 (a - stdDeduction)"
    by (rule taxable_income_exact [OF assms(2,3,7) a'])
  have Tb: "?Tb = max 0 (b - stdDeduction)"
    by (rule taxable_income_exact [OF assms(2,3) b0 assms(9)])
  have T: "0 \<le> ?Ta" "?Ta \<le> ?Tb" "?Tb \<le> 922337203685477"
    using assms(2,8,9) by (simp_all add: Ta Tb)
  obtain fa fb where f: "federal_tax d year ?Ta = Inr fa" "federal_tax d year ?Tb = Inr fb"
    "fa \<le> fb"
    using federal_tax_mono [OF assms(4,5) T] by blast
  obtain sa sb where s: "state_tax d year state ?Ta = Inr sa" "state_tax d year state ?Tb = Inr sb"
    "sa \<le> sb"
    using state_tax_mono [OF assms(6) T] by blast
  obtain ra where ra: "EstimateTaxes d a state ''single'' year payFreq termWeeks = Inr ra"
    "FederalCents ra = fa" "StateCents ra = sa" "FicaCents ra = quo (wrap (a * 765)) 10000"
    using EstimateTaxes_single [OF assms(1) f(1) s(1)] by blast
  obtain rb where rb: "EstimateTaxes d b state ''single'' year payFreq termWeeks = Inr rb"
    "FederalCents rb = fb" "StateCents rb = sb" "FicaCents rb = quo (wrap (b * 765)) 10000"
    using EstimateTaxes_single [OF assms(1) f(2) s(2)] by blast
  have "a * 765 \<le> b * 765"
    using assms(8) by simp
  then have "a * 765 div 10000 \<le> b * 765 div 10000"
    by (intro zdiv_mono1) auto
  then have "FicaCents ra \<le> FicaCents rb"
    by (simp add: ra(4) rb(4) fica_exact [OF assms(7) a'] fica_exact [OF b0 assms(9)])
  then have "total_tax ra \<le> total_tax rb"
    using f(3) s(3) by (simp add: total_tax_def ra(2,3) rb(2,3))
  then show ?thesis using ra(1) rb(1) by blast
qed

theorem total_tax_monotone_witness:
  "\<exists>ra rb.
     EstimateTaxes scenario_A_db 4000000 ''NY'' ''single'' 2024 ''biweekly'' 12 = Inr ra
     \<and> EstimateTaxes scenario_A_db 5200000 ''NY'' ''single'' 2024 ''biweekly'' 12 = Inr rb
     \<and> total_tax ra \<le> total_tax rb"
proof -
  let ?fed = "[\<lparr>bracket_low = 0, bracket_high = 0, rate_bps = 2200\<rparr>]"
  let ?st = "[\<lparr>bracket_low = 0, bracket_high = 0, rate_bps = 500\<rparr>]"
  have 1: "std_deduction_single scenario_A_db 2024 = Some 1385000"
    and 2: "tax_tables_federal scenario_A_db 2024 = Some (map Some ?fed)"
    and 3: "''NY'' = [] \<or> tax_tables_state scenario_A_db 2024 ''NY'' = Some (map Some ?st) \<and> table_ok ?st"
    and 4: "table_ok ?fed"
    by (simp_all add: scenario_A_db_def table_ok_def covers_def bracket_ints_def rate_ok_def is_int_def)
  have 5: "(0::int) \<le> 1385000" "is_int 1385000" "(0::int) \<le> 4000000" "(4000000::int) \<le> 5200000"
    "(5200000::int) \<le> 922337203685477"
    by (simp_all add: is_int_def)
  show ?thesis
    by (rule total_tax_monotone [OF 1 5(1,2) 2 4 3 5(3,4,5)])
qed

text \<open>
  C3 as stated, for any fixed tables and all incomes, fails on the code. With a gap
  in the federal table the income 1001 reaches the top bracket below its low bound, and
  the segment is negative; with a negative rate the tax falls as the income grows; and
  from 12,056,695,473,012,779 cents on the product \<open>incomeCents * 765\<close> leaves the range
  of \<open>int\<close>.
\<close>

theorem total_tax_monotone_counterexample:
  "EstimateTaxes gap_db 1000 ''NY'' ''single'' 2024 ''weekly'' 12 =
     Inr \<lparr>FederalCents = 500, StateCents = 0, FicaCents = 76,
          PerPaycheckNetCents = 35, TermNetCents = 424\<rparr>
   \<and> EstimateTaxes gap_db 1001 ''NY'' ''single'' 2024 ''weekly'' 12 =
     Inr \<lparr>FederalCents = - 399, StateCents = 0, FicaCents = 76,
          PerPaycheckNetCents = 110, TermNetCents = 1324\<rparr>
   \<and> EstimateTaxes rebate_db 0 ''NY'' ''single'' 2024 ''weekly'' 12 =
     Inr \<lparr>FederalCents = 0, StateCents = 0, FicaCents = 0,
          PerPaycheckNetCents = 0, TermNetCents = 0\<rparr>
   \<and> EstimateTaxes rebate_db 10000 ''NY'' ''single'' 2024 ''weekly'' 12 =
     Inr \<lparr>FederalCents = - 1000, StateCents = 0, FicaCents = 765,
          PerPaycheckNetCents = 852, TermNetCents = 10235\<rparr>
   \<and> EstimateTaxes untaxed_db 10000000000000000 ''NY'' ''single'' 2024 ''weekly'' 12 =
     Inr \<lparr>FederalCents = 0, StateCents = 0, FicaCents = 765000000000000,
          PerPaycheckNetCents = 769583333333333, TermNetCents = 9235000000000000\<rparr>
   \<and> EstimateTaxes untaxed_db 13000000000000000 ''NY'' ''single'' 2024 ''weekly'' 12 =
     Inr \<lparr>FederalCents = 0, StateCents = 0, FicaCents = - 850174407370955,
          PerPaycheckNetCents = 1154181200614246, TermNetCents = 13850174407370955\<rparr>"
  by code_simp

section \<open>The sort of \<open>isRecurring\<close>\<close>

lemma length_exchange: "length (exchange i j ts) = length ts"
  by (simp add: exchange_def)

lemma take_exchange: "i \<le> j \<Longrightarrow> take i (exchange i j ts) = take i ts"
  by (simp add: exchange_def)

lemma mset_drop_exchange:
  assumes "i < j" and "j < length ts"
  shows "mset (drop i (exchange i j ts)) = mset (drop i ts)"
proof (cases "Date (ts ! i) < Date (ts ! j)")
  case False
  then show ?thesis by (simp add: exchange_def)
next
  case True
  let ?d = "drop i ts"
  have "drop i (ts[i := ts ! j, j := ts ! i]) = ?d[0 := ?d ! (j - i), j - i := ?d ! 0]"
    using assms by (simp add: drop_update_swap)
  moreover have "mset (?d[0 := ?d ! (j - i), j - i := ?d ! 0]) = mset ?d"
    using assms by (intro mset_swap) auto
  ultimately show ?thesis using True by (simp add: exchange_def)
qed

lemma exchange_max:
  assumes "i < j" and "j < length ts"
    and "\<forall>k. i < k \<and> k < j \<longrightarrow> Date (ts ! k) \<le> Date (ts ! i)"
  shows "\<forall>k. i < k \<and> k < j + 1 \<longrightarrow> Date (exchange i j ts ! k) \<le> Date (exchange i j ts ! i)"
proof (intro allI impI)
  fix k assume k: "i < k \<and> k < j + 1"
  show "Date (exchange i j ts ! k) \<le> Date (exchange i j ts ! i)"
  proof (cases "Date (ts ! i) < Date (ts ! j)")
    case False
    then show ?thesis using k assms(3) by (cases "k = j") (auto simp: exchange_def)
  next
    case True
    have i: "exchange i j ts ! i = ts ! j"
      using True assms by (simp add: exchange_def)
    show ?thesis
    proof (cases "k = j")
      case True
      then show ?thesis using \<open>Date (ts ! i) < Date (ts ! j)\<close> assms i
        by (simp add: exchange_def)
    next
      case False
      then have "exchange i j ts ! k = ts ! k"
        using k assms by (simp add: exchange_def)
      moreover have "Date (ts ! k) \<le> Date (ts ! i)"
        using False k assms(3) by simp
      ultimately show ?thesis using True i by simp
    qed
  qed
qed

lemma length_sort_inner: "length (sort_inner n i j ts) = length ts"
proof (induction n i j ts rule: sort_inner.induct)
  case (1 n i j ts)
  show ?case
  proof (cases "j < n")
    case True
    have "length (sort_inner n i (j + 1) (exchange i j ts)) = length (exchange i j ts)"
      using "1.IH" [OF True] .
    then show ?thesis using True by (simp add: sort_inner.simps [of n i j] length_exchange)
  next
    case False
    then show ?thesis by (simp add: sort_inner.simps [of n i j])
  qed
qed

lemma take_sort_inner: "i < j \<Longrightarrow> take i (sort_inner n i j ts) = take i ts"
proof (induction n i j ts rule: sort_inner.induct)
  case (1 n i j ts)
  show ?case
  proof (cases "j < n")
    case True
    have "take i (sort_inner n i (j + 1) (exchange i j ts)) = take i (exchange i j ts)"
      using "1.IH" [OF True] "1.prems" by simp
    then show ?thesis
      using True "1.prems" by (simp add: sort_inner.simps [of n i j] take_exchange)
  next
    case False
    then show ?thesis by (simp add: sort_inner.simps [of n i j])
  qed
qed

lemma mset_drop_sort_inner:
  "i < j \<Longrightarrow> length ts = n \<Longrightarrow> mset (drop i (sort_inner n i j ts)) = mset (drop i ts)"
proof (induction n i j ts rule: sort_inner.induct)
  case (1 n i j ts)
  show ?case
  proof (cases "j < n")
    case True
    have "mset (drop i (sort_inner n i (j + 1) (exchange i j ts))) = mset (drop i (exchange i j ts))"
      using "1.IH" [OF True] "1.prems" by (simp add: length_exchange)
    then show ?thesis
      using True "1.prems" by (simp add: sort_inner.simps [of n i j] mset_drop_exchange)
  next
    case False
    then show ?thesis by (simp add: sort_inner.simps [of n i j])
  qed
qed

lemma sort_inner_max:
  "i < j \<Longrightarrow> length ts = n \<Longrightarrow> \<forall>k. i < k \<and> k < j \<longrightarrow> Date (ts ! k) \<le> Date (ts ! i) \<Longrightarrow>
     \<forall>k. i < k \<and> k < n \<longrightarrow> Date (sort_inner n i j ts ! k) \<le> Date (sort_inner n i j ts ! i)"
proof (induction n i j ts rule: sort_inner.induct)
  case (1 n i j ts)
  show ?case
  proof (cases "j < n")
    case True
    have "\<forall>k. i < k \<and> k < j + 1 \<longrightarrow> Date (exchange i j ts ! k) \<le> Date (exchange i j ts ! i)"
      using exchange_max [of i j ts] "1.prems" True by blast
    then have "\<forall>k. i < k \<and> k < n \<longrightarrow>
        Date (sort_inner n i (j + 1) (exchange i j ts) ! k)
          \<le> Date (sort_inner n i (j + 1) (exchange i j ts) ! i)"
      using "1.IH" [OF True] "1.prems" by (simp add: length_exchange)
    then show ?thesis
      using True by (simp add: sort_inner.simps [of n i j])
  next
    case False
    then show ?thesis using "1.prems" by (simp add: sort_inner.simps [of n i j])
  qed
qed

lemma in_set_drop_nth:
  "x \<in> set (drop n xs) \<longleftrightarrow> (\<exists>k. n \<le> k \<and> k < length xs \<and> x = xs ! k)"
proof
  assume "x \<in> set (drop n xs)"
  then obtain m where m: "m < length (drop n xs)" "drop n xs ! m = x"
    by (auto simp: in_set_conv_nth)
  then have "n \<le> n + m \<and> n + m < length xs \<and> x = xs ! (n + m)"
    by auto
  then show "\<exists>k. n \<le> k \<and> k < length xs \<and> x = xs ! k" ..
next
  assume "\<exists>k. n \<le> k \<and> k < length xs \<and> x = xs ! k"
  then obtain k where k: "n \<le> k" "k < length xs" "x = xs ! k" by blast
  then have "k - n < length (drop n xs)" "drop n xs ! (k - n) = x"
    by auto
  then show "x \<in> set (drop n xs)"
    by (metis nth_mem)
qed

lemma sorted_upto_step:
  assumes "length ts = n" and "Suc i < n" and "sorted_upto i ts"
  shows "sorted_upto (Suc i) (sort_inner n i (Suc i) ts)"
    and "mset (sort_inner n i (Suc i) ts) = mset ts"
proof -
  let ?ts = "sort_inner n i (Suc i) ts"
  have len: "length ?ts = n"
    using assms(1) by (simp add: length_sort_inner)
  have tk: "take i ?ts = take i ts"
    by (simp add: take_sort_inner)
  have dr: "mset (drop i ?ts) = mset (drop i ts)"
    using assms(1) by (simp add: mset_drop_sort_inner)
  have "mset ?ts = mset (take i ?ts) + mset (drop i ?ts)"
    by (simp flip: mset_append)
  also have "\<dots> = mset (take i ts) + mset (drop i ts)"
    by (simp only: tk dr)
  also have "\<dots> = mset ts"
    by (simp flip: mset_append)
  finally show "mset ?ts = mset ts" .
  have sdr: "set (drop i ?ts) = set (drop i ts)"
    using dr by (rule mset_eq_setD)
  have mx: "\<forall>k. i < k \<and> k < n \<longrightarrow> Date (?ts ! k) \<le> Date (?ts ! i)"
    using sort_inner_max [of i "Suc i" ts n] assms(1) by simp
  have i: "i < length ?ts"
    using len assms(2) by simp
  have tk1: "take (Suc i) ?ts = take i ts @ [?ts ! i]"
    using take_Suc_conv_app_nth [OF i] tk by simp
  have "?ts ! i \<in> set (drop i ?ts)"
    using i by (auto simp: in_set_drop_nth)
  then have mem: "?ts ! i \<in> set (drop i ts)"
    by (simp only: sdr)
  have below: "\<forall>a \<in> set (take i ts). Date (?ts ! i) \<le> Date a"
    using assms(3) mem by (auto simp: sorted_upto_def)
  have s1: "sorted_wrt (\<lambda>a b. Date b \<le> Date a) (take (Suc i) ?ts)"
    using assms(3) below by (simp add: tk1 sorted_wrt_append sorted_upto_def)
  have cross: "Date b \<le> Date a"
    if a: "a \<in> set (take (Suc i) ?ts)" and b: "b \<in> set (drop (Suc i) ?ts)" for a b
  proof -
    obtain k where k: "Suc i \<le> k" "k < length ?ts" "b = ?ts ! k"
      using b by (auto simp: in_set_drop_nth)
    then have "i \<le> k \<and> k < length ?ts \<and> b = ?ts ! k"
      by simp
    then have "b \<in> set (drop i ?ts)"
      unfolding in_set_drop_nth ..
    then have bd: "b \<in> set (drop i ts)"
      by (simp only: sdr)
    show ?thesis
    proof (cases "a = ?ts ! i")
      case True
      then show ?thesis using mx k len by simp
    next
      case False
      then have "a \<in> set (take i ts)" using a tk1 by simp
      then show ?thesis using assms(3) bd by (auto simp: sorted_upto_def)
    qed
  qed
  show "sorted_upto (Suc i) ?ts"
    by (simp add: sorted_upto_def s1 cross)
qed

lemma sort_outer_sorted:
  "length ts = n \<Longrightarrow> sorted_upto i ts \<Longrightarrow>
     length (sort_outer n i ts) = n \<and> mset (sort_outer n i ts) = mset ts
     \<and> sorted_wrt (\<lambda>a b. Date b \<le> Date a) (sort_outer n i ts)"
proof (induction n i ts rule: sort_outer.induct)
  case (1 n i ts)
  show ?case
  proof (cases "Suc i < n")
    case True
    then have True': "i + 1 < n" by simp
    let ?ts = "sort_inner n i (Suc i) ts"
    have len: "length ?ts = n"
      using "1.prems"(1) by (simp add: length_sort_inner)
    note st = sorted_upto_step [OF "1.prems"(1) True "1.prems"(2)]
    have "length (sort_outer n (Suc i) ?ts) = n \<and> mset (sort_outer n (Suc i) ?ts) = mset ?ts
      \<and> sorted_wrt (\<lambda>a b. Date b \<le> Date a) (sort_outer n (Suc i) ?ts)"
      using "1.IH" [OF True'] len st(1) by simp
    then show ?thesis
      using True st(2) by (simp add: sort_outer.simps [of n i ts])
  next
    case False
    have d: "length (drop i ts) \<le> 1"
      using False "1.prems"(1) by simp
    then have "sorted_wrt (\<lambda>a b. Date b \<le> Date a) (drop i ts)"
      by (cases "drop i ts") auto
    then have "sorted_wrt (\<lambda>a b. Date b \<le> Date a) (take i ts @ drop i ts)"
      using "1.prems"(2) by (simp only: sorted_wrt_append sorted_upto_def) blast
    then show ?thesis
      using False "1.prems"(1) by (simp add: sort_outer.simps [of n i ts])
  qed
qed

lemma sorted_upto_0: "sorted_upto 0 ts"
  by (simp add: sorted_upto_def)

lemma length_consecutive_gaps: "length (consecutive_gaps ds) = length ds - 1"
  by (induction ds rule: consecutive_gaps.induct) simp_all

lemma abs_go_abs: "abs_go x = \<bar>x\<bar>"
  by (simp add: abs_go_def)

lemma length_sort_outer: "length (sort_outer (length ts) 0 ts) = length ts"
  using sort_outer_sorted [OF refl sorted_upto_0, of ts] by simp

lemma mset_sort_outer: "mset (sort_outer (length ts) 0 ts) = mset ts"
  using sort_outer_sorted [OF refl sorted_upto_0, of ts] by simp

lemma sort_outer_dates:
  "map Date (sort_outer (length ts) 0 ts) = rev (sort (map Date ts))"
proof -
  let ?s = "sort_outer (length ts) 0 ts"
  have m: "mset ?s = mset ts" and s: "sorted_wrt (\<lambda>a b. Date b \<le> Date a) ?s"
    using sort_outer_sorted [OF refl sorted_upto_0, of ts] by simp_all
  have "sorted_wrt (\<lambda>x y. y \<le> x) (map Date ?s)"
    using s by (simp add: sorted_wrt_map)
  then have "sorted (rev (map Date ?s))"
    by (simp add: sorted_wrt_rev)
  moreover have "mset (rev (map Date ?s)) = mset (map Date ts)"
    using m by (metis mset_map mset_rev)
  ultimately have "sort (map Date ts) = rev (map Date ?s)"
    by (intro properties_for_sort)
  then show ?thesis by simp
qed

section \<open>The verdict of \<open>isRecurring\<close>\<close>

lemma intervals_of_Cons:
  "intervals_of (a # b # ts) = days_between (Date a) (Date b) # intervals_of (b # ts)"
proof -
  have u: "[1..<length (a # b # ts)] = 1 # map Suc [1..<length (b # ts)]"
    by (simp add: upt_conv_Cons map_Suc_upt del: upt_Suc)
  show ?thesis
    unfolding intervals_of_def u by (simp del: upt_Suc)
qed

lemma intervals_of_gaps: "intervals_of ts = consecutive_gaps (map Date ts)"
proof (induction ts rule: induct_list012)
  case 1
  show ?case by (simp add: intervals_of_def)
next
  case (2 a)
  show ?case by (simp add: intervals_of_def)
next
  case (3 a b ts)
  then show ?case by (simp add: intervals_of_Cons)
qed

lemma isRecurring_sorted: "snd (isRecurring ts) = (if length ts < 2 then ts else sort_outer (length ts) 0 ts)"
  by (simp add: isRecurring_def Let_def)

lemma isRecurring_steady:
  assumes "2 \<le> length ts"
  shows "fst (isRecurring ts) = steady (consecutive_gaps (rev (sort (map Date ts))))"
proof -
  let ?s = "sort_outer (length ts) 0 ts"
  have g: "intervals_of ?s = consecutive_gaps (rev (sort (map Date ts)))"
    by (simp add: intervals_of_gaps sort_outer_dates)
  have "length (intervals_of ?s) = length ts - 1"
    by (simp add: intervals_of_gaps length_consecutive_gaps length_sort_outer)
  then have l: "\<not> length (intervals_of ?s) < 1"
    using assms by simp
  have "fst (isRecurring ts) = steady (intervals_of ?s)"
    using assms l by (simp add: isRecurring_def Let_def steady_def abs_go_abs not_less)
  then show ?thesis
    by (simp only: g)
qed

lemma detect_group_recurring:
  "detect_group now ts \<noteq> None \<longleftrightarrow> 2 \<le> length ts \<and> fst (isRecurring ts)"
  by (auto simp: detect_group_def split: prod.splits)

lemma detect_group_Some:
  assumes "detect_group now ts = Some s"
  shows "2 \<le> length ts" and "fst (isRecurring ts)"
    and "s = \<lparr>merchant_name = MerchantName (sort_outer (length ts) 0 ts ! 0),
              amount = Amount (sort_outer (length ts) 0 ts ! 0),
              frequency = determineFrequency (sort_outer (length ts) 0 ts),
              last_charge = Date (sort_outer (length ts) 0 ts ! 0),
              next_due = predictNextDue now (sort_outer (length ts) 0 ts),
              category = Category (sort_outer (length ts) 0 ts ! 0)\<rparr>"
proof -
  show l: "2 \<le> length ts"
    using assms by (auto simp: detect_group_def split: if_splits)
  obtain r ts' where r: "isRecurring ts = (r, ts')"
    by (cases "isRecurring ts")
  then have ts': "ts' = sort_outer (length ts) 0 ts"
    using isRecurring_sorted [of ts] l by simp
  show "fst (isRecurring ts)"
    using assms l r by (auto simp: detect_group_def split: if_splits)
  show "s = \<lparr>merchant_name = MerchantName (sort_outer (length ts) 0 ts ! 0),
              amount = Amount (sort_outer (length ts) 0 ts ! 0),
              frequency = determineFrequency (sort_outer (length ts) 0 ts),
              last_charge = Date (sort_outer (length ts) 0 ts ! 0),
              next_due = predictNextDue now (sort_outer (length ts) 0 ts),
              category = Category (sort_outer (length ts) 0 ts ! 0)\<rparr>"
    using assms l r ts' by (auto simp: detect_group_def split: if_splits)
qed

section \<open>Groups and the subscriptions emitted\<close>

lemma group_transactions_step:
  "\<not> (Pending t \<or> Amount t < 0) \<Longrightarrow>
     group_transactions L F (t # txns) groups =
       group_transactions L F txns
         (groups(group_key L F t \<mapsto> group_of groups (group_key L F t) @ [t]))"
  by (simp add: Let_def group_of_def)

lemma group_transactions_skip:
  "Pending t \<or> Amount t < 0 \<Longrightarrow>
     group_transactions L F (t # txns) groups = group_transactions L F txns groups"
  by simp

lemma group_transactions_group_of:
  "group_of (group_transactions L F txns groups) k = group_of groups k @ filter (kept L F k) txns"
proof (induction txns arbitrary: groups)
  case Nil
  show ?case by simp
next
  case (Cons t txns)
  show ?case
  proof (cases "Pending t \<or> Amount t < 0")
    case True
    then have "filter (kept L F k) (t # txns) = filter (kept L F k) txns"
      by (auto simp: kept_def)
    then show ?thesis
      by (simp only: group_transactions_skip [OF True] Cons.IH)
  next
    case False
    let ?g = "groups(group_key L F t \<mapsto> group_of groups (group_key L F t) @ [t])"
    have 1: "group_of ?g k = group_of groups k @ (if group_key L F t = k then [t] else [])"
      by (simp add: group_of_def)
    have 2: "filter (kept L F k) (t # txns) =
        (if group_key L F t = k then [t] else []) @ filter (kept L F k) txns"
      using False by (simp add: kept_def)
    show ?thesis
      by (simp only: group_transactions_step [OF False] Cons.IH 1 2 append_assoc)
  qed
qed

lemma group_transactions_dom:
  "group_transactions L F txns groups k = None \<longleftrightarrow>
     groups k = None \<and> filter (kept L F k) txns = []"
proof (induction txns arbitrary: groups)
  case Nil
  show ?case by simp
next
  case (Cons t txns)
  show ?case
  proof (cases "Pending t \<or> Amount t < 0")
    case True
    then have "filter (kept L F k) (t # txns) = filter (kept L F k) txns"
      by (auto simp: kept_def)
    then show ?thesis
      by (simp only: group_transactions_skip [OF True] Cons.IH)
  next
    case False
    let ?g = "groups(group_key L F t \<mapsto> group_of groups (group_key L F t) @ [t])"
    have 1: "?g k = None \<longleftrightarrow> groups k = None \<and> group_key L F t \<noteq> k"
      by simp
    have 2: "filter (kept L F k) (t # txns) = [] \<longleftrightarrow>
        group_key L F t \<noteq> k \<and> filter (kept L F k) txns = []"
      using False by (simp add: kept_def)
    show ?thesis
      unfolding group_transactions_step [OF False] Cons.IH 1 2 by blast
  qed
qed

lemma groups_filter:
  "group_transactions L F txns Map.empty k =
     (if filter (kept L F k) txns = [] then None else Some (filter (kept L F k) txns))"
proof (cases "filter (kept L F k) txns = []")
  case True
  then show ?thesis using group_transactions_dom [of L F txns Map.empty k] by simp
next
  case False
  then obtain g where g: "group_transactions L F txns Map.empty k = Some g"
    using group_transactions_dom [of L F txns Map.empty k] by auto
  then have "g = filter (kept L F k) txns"
    using group_transactions_group_of [of L F txns Map.empty k] by (simp add: group_of_def)
  then show ?thesis using False g by simp
qed

lemma range_groups_acc:
  "range_groups groups now keys subs =
     subs @ List.map_filter (\<lambda>k. Option.bind (groups k) (detect_group now)) keys"
proof (induction keys arbitrary: subs)
  case Nil
  show ?case by (simp add: List.map_filter_simps)
next
  case (Cons k keys)
  show ?case
    by (simp add: Cons.IH List.map_filter_simps split: option.splits)
qed

lemma DetectRecurring_output:
  "DetectRecurringTransactions L F now keys txns =
     List.map_filter
       (\<lambda>k. Option.bind (group_transactions L F txns Map.empty k) (detect_group now)) keys"
  by (simp add: DetectRecurringTransactions_def range_groups_acc)

lemma set_map_filter: "set (List.map_filter f xs) = {y. \<exists>x \<in> set xs. f x = Some y}"
  by (induction xs) (auto simp: List.map_filter_simps split: option.splits)

lemma DetectRecurring_member:
  "s \<in> set (DetectRecurringTransactions L F now keys txns) \<longleftrightarrow>
     (\<exists>k \<in> set keys. \<exists>g. group_transactions L F txns Map.empty k = Some g
        \<and> detect_group now g = Some s)"
  by (simp add: DetectRecurring_output set_map_filter bind_eq_Some_conv)

lemma single_group:
  assumes "\<forall>t \<in> set txns. kept L F k t" and "txns \<noteq> []"
  shows "group_transactions L F txns Map.empty = [k \<mapsto> txns]"
proof
  fix k'
  show "group_transactions L F txns Map.empty k' = [k \<mapsto> txns] k'"
  proof (cases "k' = k")
    case True
    have "filter (kept L F k) txns = txns"
      using assms(1) by simp
    then show ?thesis using True assms(2) by (simp add: groups_filter)
  next
    case False
    have "\<forall>t \<in> set txns. \<not> kept L F k' t"
      using assms(1) False by (auto simp: kept_def)
    then have "filter (kept L F k') txns = []"
      by simp
    then show ?thesis using False by (simp add: groups_filter)
  qed
qed

lemma range_order_single: "range_order [k \<mapsto> v] [k]"
  by (simp add: range_order_def)

lemma detect_group_Some_iff:
  "(\<exists>s. detect_group now ts = Some s) \<longleftrightarrow> 2 \<le> length ts \<and> fst (isRecurring ts)"
  using detect_group_recurring [of now ts] by auto

section \<open>The recurrence test\<close>








section \<open>Minimum support\<close>

lemma tdiv_1: "tdiv g 1 = g"
  by (simp add: tdiv_def sgn_if)

lemma steady_single: "steady [g]"
  by (simp add: steady_def tdiv_1)

lemma consecutive_gaps_pair: "length ds = 2 \<Longrightarrow> \<exists>g. consecutive_gaps ds = [g]"
proof -
  assume "length ds = 2"
  then obtain a b where "ds = [a, b]"
    by (cases ds; cases "tl ds") auto
  then show ?thesis by simp
qed

lemma pair_recurring: "\<exists>s. detect_group now [t1, t2] = Some s"
proof -
  have "length (rev (sort (map Date [t1, t2]))) = 2"
    by (simp del: sort_key_simps)
  then obtain g where "consecutive_gaps (rev (sort (map Date [t1, t2]))) = [g]"
    using consecutive_gaps_pair by blast
  then have "fst (isRecurring [t1, t2])"
    by (simp add: isRecurring_steady steady_single del: sort_key_simps)
  then show ?thesis
    by (simp add: detect_group_Some_iff)
qed

lemma dom_groups:
  "dom (group_transactions L F txns Map.empty) =
     set (map (group_key L F) (filter (\<lambda>t. \<not> Pending t \<and> \<not> Amount t < 0) txns))"
proof -
  have "group_transactions L F txns Map.empty k \<noteq> None \<longleftrightarrow>
      k \<in> set (map (group_key L F) (filter (\<lambda>t. \<not> Pending t \<and> \<not> Amount t < 0) txns))" for k
    by (auto simp: group_transactions_dom filter_empty_conv kept_def)
  then show ?thesis by (auto simp: dom_def)
qed

lemma range_order_first_seen:
  "range_order (group_transactions L F txns Map.empty)
     (remdups (map (group_key L F) (filter (\<lambda>t. \<not> Pending t \<and> \<not> Amount t < 0) txns)))"
  by (simp add: range_order_def dom_groups)

lemma range_orderI:
  "distinct keys \<Longrightarrow>
   map (group_key L F) (filter (\<lambda>t. \<not> Pending t \<and> \<not> Amount t < 0) txns) = ks \<Longrightarrow>
   set keys = set ks \<Longrightarrow>
   range_order (group_transactions L F txns Map.empty) keys"
  by (auto simp: range_order_def dom_groups)

lemma lone_charge_keys:
  "map (group_key lower_ascii (\<lambda>a. ''9.99''))
     (filter (\<lambda>t. \<not> Pending t \<and> \<not> Amount t < 0) lone_charge) =
   [''netflix_9.99'', ''hulu_9.99'', ''netflix_9.99'']"
  by code_simp

lemma lone_charge_range_order:
  "range_order (group_transactions lower_ascii (\<lambda>a. ''9.99'') lone_charge Map.empty)
     [''netflix_9.99'', ''hulu_9.99'']"
  by (rule range_orderI [OF _ lone_charge_keys]) auto

lemma netflix_key:
  "group_key lower_ascii (\<lambda>a. ''9.99'') (charge ''Netflix'' (999 / 100) 0) = ''netflix_9.99''"
  by code_simp

lemma netflix_group:
  "filter (kept lower_ascii (\<lambda>a. ''9.99'') ''netflix_9.99'') lone_charge =
     [charge ''Netflix'' (999 / 100) 0, charge ''Netflix'' (999 / 100) 400]"
  by code_simp

lemma hulu_not_kept:
  "\<not> kept lower_ascii (\<lambda>a. ''9.99'') ''netflix_9.99'' (charge ''Hulu'' (999 / 100) 3)"
  by code_simp

lemma netflix_key_400:
  "group_key lower_ascii (\<lambda>a. ''9.99'') (charge ''Netflix'' (999 / 100) 400) = ''netflix_9.99''"
  by code_simp

text \<open>
  C5, as amended. A group of exactly 1 transaction yields no subscription, and every
  subscription in the output comes from a group of at least 2 transactions. Two
  transactions that are not pending, whose amounts are not negative and that have the same
  group key (the lowercased merchant name and the amount as \<open>%.2f\<close> renders it) form a
  group when no other transaction of the input is kept under their key; whatever their two
  dates, a subscription for this group is in the output, for every order in which Go
  visits the groups. Transactions with identical amounts and the same lowercased merchant
  name have the same key.
\<close>

theorem minimum_support:
  "(length txns = 1 \<longrightarrow> detect_group now txns = None)
   \<and> (\<forall>s \<in> set (DetectRecurringTransactions ToLower Sprintf_2f now keys transactions).
        \<exists>key txns. group_transactions ToLower Sprintf_2f transactions Map.empty key = Some txns
          \<and> txns = filter (kept ToLower Sprintf_2f key) transactions
          \<and> 2 \<le> length txns \<and> detect_group now txns = Some s)
   \<and> (\<not> Pending t1 \<and> \<not> Pending t2 \<and> \<not> Amount t1 < 0 \<and> \<not> Amount t2 < 0
      \<and> group_key ToLower Sprintf_2f t2 = group_key ToLower Sprintf_2f t1
      \<and> transactions = xs @ t1 # ys @ t2 # zs
      \<and> (\<forall>t \<in> set (xs @ ys @ zs). \<not> kept ToLower Sprintf_2f (group_key ToLower Sprintf_2f t1) t)
      \<and> range_order (group_transactions ToLower Sprintf_2f transactions Map.empty) keys \<longrightarrow>
      (\<exists>s \<in> set (DetectRecurringTransactions ToLower Sprintf_2f now keys transactions).
         detect_group now [t1, t2] = Some s))
   \<and> (Amount t2 = Amount t1 \<and> ToLower (MerchantName t2) = ToLower (MerchantName t1) \<longrightarrow>
        group_key ToLower Sprintf_2f t2 = group_key ToLower Sprintf_2f t1)"
proof -
  have 1: "detect_group now txns = None" if "length txns = 1"
    using that by (simp add: detect_group_def)
  have 2: "\<exists>key txns. group_transactions ToLower Sprintf_2f transactions Map.empty key = Some txns
          \<and> txns = filter (kept ToLower Sprintf_2f key) transactions
          \<and> 2 \<le> length txns \<and> detect_group now txns = Some s"
    if mem: "s \<in> set (DetectRecurringTransactions ToLower Sprintf_2f now keys transactions)" for s
  proof -
    obtain k g where g: "group_transactions ToLower Sprintf_2f transactions Map.empty k = Some g"
      "detect_group now g = Some s"
      using mem by (auto simp: DetectRecurring_member)
    have "g = filter (kept ToLower Sprintf_2f k) transactions"
      using g(1) by (simp add: groups_filter split: if_splits)
    moreover have "2 \<le> length g"
      using detect_group_Some(1) [OF g(2)] .
    ultimately show ?thesis using g by blast
  qed
  have 3: "\<exists>s \<in> set (DetectRecurringTransactions ToLower Sprintf_2f now keys transactions).
         detect_group now [t1, t2] = Some s"
    if p: "\<not> Pending t1" "\<not> Pending t2" "\<not> Amount t1 < 0" "\<not> Amount t2 < 0"
      and k2: "group_key ToLower Sprintf_2f t2 = group_key ToLower Sprintf_2f t1"
      and tr: "transactions = xs @ t1 # ys @ t2 # zs"
      and others: "\<forall>t \<in> set (xs @ ys @ zs). \<not> kept ToLower Sprintf_2f (group_key ToLower Sprintf_2f t1) t"
      and r: "range_order (group_transactions ToLower Sprintf_2f transactions Map.empty) keys"
  proof -
    let ?k = "group_key ToLower Sprintf_2f t1"
    have k1: "kept ToLower Sprintf_2f ?k t1" and k2': "kept ToLower Sprintf_2f ?k t2"
      using p k2 by (simp_all add: kept_def)
    have "filter (kept ToLower Sprintf_2f ?k) xs = []" "filter (kept ToLower Sprintf_2f ?k) ys = []"
      "filter (kept ToLower Sprintf_2f ?k) zs = []"
      using others by (simp_all add: filter_empty_conv)
    then have f: "filter (kept ToLower Sprintf_2f ?k) transactions = [t1, t2]"
      using k1 k2' by (simp add: tr)
    have g: "group_transactions ToLower Sprintf_2f transactions Map.empty ?k = Some [t1, t2]"
      by (simp add: groups_filter f)
    then have k: "?k \<in> set keys"
      using r by (auto simp: range_order_def)
    obtain s where s: "detect_group now [t1, t2] = Some s"
      using pair_recurring by blast
    then have "s \<in> set (DetectRecurringTransactions ToLower Sprintf_2f now keys transactions)"
      using g k by (auto simp: DetectRecurring_member)
    then show ?thesis using s by blast
  qed
  have 4: "group_key ToLower Sprintf_2f t2 = group_key ToLower Sprintf_2f t1"
    if "Amount t2 = Amount t1" "ToLower (MerchantName t2) = ToLower (MerchantName t1)"
    using that by (simp add: group_key_def)
  show ?thesis using 1 2 3 4 by blast
qed

theorem minimum_support_witness:
  "detect_group 0 [charge ''Hulu'' (999 / 100) 3] = None
   \<and> (\<exists>s \<in> set (DetectRecurringTransactions lower_ascii (\<lambda>a. ''9.99'') 0
                  [''netflix_9.99'', ''hulu_9.99''] lone_charge).
        detect_group 0 [charge ''Netflix'' (999 / 100) 0, charge ''Netflix'' (999 / 100) 400] = Some s)"
proof -
  let ?t1 = "charge ''Netflix'' (999 / 100) 0" and ?t2 = "charge ''Netflix'' (999 / 100) 400"
  have 1: "length [charge ''Hulu'' (999 / 100) 3] = 1"
    by simp
  have 2: "\<not> Pending ?t1 \<and> \<not> Pending ?t2 \<and> \<not> Amount ?t1 < 0 \<and> \<not> Amount ?t2 < 0"
    by (simp add: charge_def)
  have 3: "group_key lower_ascii (\<lambda>a. ''9.99'') ?t2 = group_key lower_ascii (\<lambda>a. ''9.99'') ?t1"
    by (simp only: netflix_key netflix_key_400)
  have 4: "lone_charge = [] @ ?t1 # [charge ''Hulu'' (999 / 100) 3] @ ?t2 # []"
    by (simp add: lone_charge_def)
  have 5: "\<forall>t \<in> set ([] @ [charge ''Hulu'' (999 / 100) 3] @ []).
      \<not> kept lower_ascii (\<lambda>a. ''9.99'') (group_key lower_ascii (\<lambda>a. ''9.99'') ?t1) t"
    using hulu_not_kept by (simp add: netflix_key)
  show ?thesis
    using minimum_support [where txns = "[charge ''Hulu'' (999 / 100) 3]" and now = 0
        and ToLower = lower_ascii and ?Sprintf_2f.0 = "\<lambda>a. ''9.99''"
        and keys = "[''netflix_9.99'', ''hulu_9.99'']" and transactions = lone_charge
        and ?t1.0 = ?t1 and ?t2.0 = ?t2 and xs = "[]"
        and ys = "[charge ''Hulu'' (999 / 100) 3]" and zs = "[]"]
      1 2 3 4 5 lone_charge_range_order
    by blast
qed

lemma zero_charges_keys:
  "map (group_key lower_ascii sprintf_2f_zero)
     (filter (\<lambda>t. \<not> Pending t \<and> \<not> Amount t < 0) zero_charges) =
   [''cafe_0.00'', ''cafe_-0.00'']"
  by code_simp

lemma zero_charges_range_order:
  "range_order (group_transactions lower_ascii sprintf_2f_zero zero_charges Map.empty)
     [''cafe_0.00'', ''cafe_-0.00'']"
  by (rule range_orderI [OF _ zero_charges_keys]) auto

lemma zero_charges_facts:
  "\<not> Pending (zero_charge False 0) \<and> \<not> Pending (zero_charge True 30)
   \<and> \<not> Amount (zero_charge False 0) < 0 \<and> \<not> Amount (zero_charge True 30) < 0
   \<and> float64_eq (Amount (zero_charge True 30)) (Amount (zero_charge False 0))
   \<and> lower_ascii (MerchantName (zero_charge True 30)) = lower_ascii (MerchantName (zero_charge False 0))"
  by code_simp

lemma zero_charges_output:
  "DetectRecurringTransactions lower_ascii sprintf_2f_zero 0 [''cafe_0.00'', ''cafe_-0.00''] zero_charges = []
   \<and> DetectRecurringTransactions lower_ascii sprintf_2f_zero 0 [''cafe_-0.00'', ''cafe_0.00''] zero_charges = []"
  by code_simp

text \<open>
  C5 as stated, for pairs of the same amount, fails on the code: \<open>0.0\<close> and \<open>-0.0\<close> are
  equal amounts, neither negative, but their keys end in \<open>0.00\<close> and \<open>-0.00\<close>. The two
  charges fall into two groups of one and nothing is reported, in either order of the keys.
\<close>

theorem minimum_support_counterexample:
  "\<not> Pending (zero_charge False 0) \<and> \<not> Pending (zero_charge True 30)
   \<and> \<not> Amount (zero_charge False 0) < 0 \<and> \<not> Amount (zero_charge True 30) < 0
   \<and> float64_eq (Amount (zero_charge True 30)) (Amount (zero_charge False 0))
   \<and> lower_ascii (MerchantName (zero_charge True 30)) = lower_ascii (MerchantName (zero_charge False 0))
   \<and> zero_charges = [zero_charge False 0, zero_charge True 30]
   \<and> range_order (group_transactions lower_ascii sprintf_2f_zero zero_charges Map.empty)
        [''cafe_0.00'', ''cafe_-0.00'']
   \<and> DetectRecurringTransactions lower_ascii sprintf_2f_zero 0 [''cafe_0.00'', ''cafe_-0.00'']
        zero_charges = []
   \<and> DetectRecurringTransactions lower_ascii sprintf_2f_zero 0 [''cafe_-0.00'', ''cafe_0.00'']
        zero_charges = []"
  using zero_charges_facts zero_charges_range_order zero_charges_output
  by (simp add: zero_charges_def)

section \<open>Frequency\<close>

lemma descending_ends:
  fixes ds :: "int list"
  assumes "sorted_wrt (\<lambda>x y. y \<le> x) ds" and "ds \<noteq> []"
  shows "ds ! 0 = Max (set ds)" and "ds ! (length ds - 1) = Min (set ds)"
proof -
  have n: "0 < length ds" using assms(2) by simp
  have le: "ds ! j \<le> ds ! i" if "i \<le> j" "j < length ds" for i j
  proof (cases "i = j")
    case True
    then show ?thesis by simp
  next
    case False
    then have "i < j" using that(1) by simp
    then show ?thesis using assms(1) that(2) by (simp add: sorted_wrt_iff_nth_less)
  qed
  have "Max (set ds) = ds ! 0"
  proof (rule Max_eqI)
    show "finite (set ds)" by simp
    show "ds ! 0 \<in> set ds" using n by simp
    fix y assume "y \<in> set ds"
    then obtain j where "j < length ds" "y = ds ! j"
      by (auto simp: in_set_conv_nth)
    then show "y \<le> ds ! 0" using le [of 0 j] by simp
  qed
  then show "ds ! 0 = Max (set ds)" by simp
  have "Min (set ds) = ds ! (length ds - 1)"
  proof (rule Min_eqI)
    show "finite (set ds)" by simp
    show "ds ! (length ds - 1) \<in> set ds" using n by simp
    fix y assume "y \<in> set ds"
    then obtain j where "j < length ds" "y = ds ! j"
      by (auto simp: in_set_conv_nth)
    then show "ds ! (length ds - 1) \<le> y" using le [of j "length ds - 1"] n by simp
  qed
  then show "ds ! (length ds - 1) = Min (set ds)" by simp
qed

lemma sorted_ends:
  assumes "txns \<noteq> []"
  shows "Date (sort_outer (length txns) 0 txns ! 0) = Max (Date ` set txns)"
    and "Date (sort_outer (length txns) 0 txns ! (length txns - Suc 0)) = Min (Date ` set txns)"
proof -
  let ?s = "sort_outer (length txns) 0 txns"
  let ?ds = "map Date ?s"
  have len: "length ?s = length txns"
    by (rule length_sort_outer)
  have "sorted_wrt (\<lambda>a b. Date b \<le> Date a) ?s"
    using sort_outer_sorted [OF refl sorted_upto_0, of txns] by simp
  then have d: "sorted_wrt (\<lambda>x y. y \<le> x) ?ds"
    by (simp add: sorted_wrt_map)
  have ne: "?ds \<noteq> []"
    using assms len by auto
  have "set ?s = set txns"
    using mset_sort_outer [of txns] by (rule mset_eq_setD)
  then have st: "set ?ds = Date ` set txns"
    by simp
  have n: "0 < length txns" using assms by simp
  have "?ds ! 0 = Max (set ?ds)"
    by (rule descending_ends(1) [OF d ne])
  then show "Date (?s ! 0) = Max (Date ` set txns)"
    using n len by (simp only: st) simp
  have "?ds ! (length ?ds - 1) = Min (set ?ds)"
    by (rule descending_ends(2) [OF d ne])
  then show "Date (?s ! (length txns - Suc 0)) = Min (Date ` set txns)"
    using n len by (simp only: st) simp
qed

lemma determineFrequency_sorted:
  assumes "2 \<le> length txns"
  shows "determineFrequency (sort_outer (length txns) 0 txns) =
           (if average_gap txns \<le> 8 then ''weekly''
            else if average_gap txns \<le> 35 then ''monthly''
            else if average_gap txns \<le> 95 then ''quarterly''
            else ''yearly'')"
proof -
  have ne: "txns \<noteq> []" using assms by auto
  show ?thesis
    using assms
    by (simp add: determineFrequency_def length_sort_outer sorted_ends [OF ne] average_gap_def
        span_days_def Let_def)
qed

lemma predictNextDue_sorted:
  assumes "2 \<le> length txns"
  shows "predictNextDue now (sort_outer (length txns) 0 txns) =
           Max (Date ` set txns) + average_gap txns"
proof -
  have ne: "txns \<noteq> []" using assms by auto
  show ?thesis
    using assms
    by (simp add: predictNextDue_def length_sort_outer sorted_ends [OF ne] average_gap_def
        span_days_def Let_def)
qed

lemma detect_group_frequency:
  assumes "detect_group now txns = Some s"
  shows "frequency s =
           (if average_gap txns \<le> 8 then ''weekly''
            else if average_gap txns \<le> 35 then ''monthly''
            else if average_gap txns \<le> 95 then ''quarterly''
            else ''yearly'')"
    and "frequency s = determineFrequency (snd (isRecurring txns))"
proof -
  note d = detect_group_Some [OF assms]
  have f: "frequency s = determineFrequency (sort_outer (length txns) 0 txns)"
    by (subst d(3)) simp
  show "frequency s =
           (if average_gap txns \<le> 8 then ''weekly''
            else if average_gap txns \<le> 35 then ''monthly''
            else if average_gap txns \<le> 95 then ''quarterly''
            else ''yearly'')"
    by (simp only: f determineFrequency_sorted [OF d(1)])
  show "frequency s = determineFrequency (snd (isRecurring txns))"
    using d(1) by (simp add: f isRecurring_sorted)
qed

lemma emitted_from_group:
  assumes "s \<in> set (DetectRecurringTransactions L F now keys transactions)"
  shows "\<exists>key txns. group_transactions L F transactions Map.empty key = Some txns
           \<and> 2 \<le> length txns \<and> detect_group now txns = Some s"
proof -
  obtain k g where g: "group_transactions L F transactions Map.empty k = Some g"
    "detect_group now g = Some s"
    using assms by (auto simp: DetectRecurring_member)
  then show ?thesis
    using detect_group_Some(1) [OF g(2)] by blast
qed



lemma spotify_keys:
  "map (group_key lower_ascii (\<lambda>a. ''9.99''))
     (filter (\<lambda>t. \<not> Pending t \<and> \<not> Amount t < 0) spotify_charges) =
   [''spotify_9.99'', ''spotify_9.99'', ''spotify_9.99'']"
  by code_simp

lemma spotify_range_order:
  "range_order (group_transactions lower_ascii (\<lambda>a. ''9.99'') spotify_charges Map.empty)
     [''spotify_9.99'']"
  by (rule range_orderI [OF _ spotify_keys]) simp_all

lemma spotify_output:
  "DetectRecurringTransactions lower_ascii (\<lambda>a. ''9.99'') 0 [''spotify_9.99''] spotify_charges =
     [spotify_subscription]"
  by code_simp



text \<open>
  C10. Every subscription in the output has the frequency weekly, monthly, quarterly or
  yearly and never unknown: it comes from a group of at least 2 transactions, its
  frequency is what \<open>determineFrequency\<close> returns for the sorted group, and
  \<open>determineFrequency\<close> returns unknown exactly for fewer than 2 transactions.
\<close>

theorem frequency_never_unknown:
  "(\<forall>s \<in> set (DetectRecurringTransactions ToLower Sprintf_2f now keys transactions).
      frequency s \<in> {''weekly'', ''monthly'', ''quarterly'', ''yearly''}
      \<and> frequency s \<noteq> ''unknown''
      \<and> (\<exists>key txns. group_transactions ToLower Sprintf_2f transactions Map.empty key = Some txns
            \<and> 2 \<le> length txns \<and> detect_group now txns = Some s
            \<and> frequency s = determineFrequency (snd (isRecurring txns))))
   \<and> (determineFrequency ts = ''unknown'') = (length ts < 2)"
proof -
  have 1: "frequency s \<in> {''weekly'', ''monthly'', ''quarterly'', ''yearly''}
      \<and> frequency s \<noteq> ''unknown''
      \<and> (\<exists>key txns. group_transactions ToLower Sprintf_2f transactions Map.empty key = Some txns
            \<and> 2 \<le> length txns \<and> detect_group now txns = Some s
            \<and> frequency s = determineFrequency (snd (isRecurring txns)))"
    if mem: "s \<in> set (DetectRecurringTransactions ToLower Sprintf_2f now keys transactions)" for s
  proof -
    obtain key txns where g: "group_transactions ToLower Sprintf_2f transactions Map.empty key = Some txns"
      "2 \<le> length txns" "detect_group now txns = Some s"
      using emitted_from_group [OF mem] by blast
    note f = detect_group_frequency [OF g(3)]
    have "frequency s \<in> {''weekly'', ''monthly'', ''quarterly'', ''yearly''}"
      by (simp add: f(1))
    moreover have "frequency s \<noteq> ''unknown''"
      by (simp add: f(1))
    ultimately show ?thesis using g f(2) by blast
  qed
  have 2: "(determineFrequency ts = ''unknown'') = (length ts < 2)"
    by (simp add: determineFrequency_def Let_def)
  show ?thesis using 1 2 by blast
qed

theorem frequency_never_unknown_witness:
  "frequency spotify_subscription \<in> {''weekly'', ''monthly'', ''quarterly'', ''yearly''}
   \<and> frequency spotify_subscription \<noteq> ''unknown''
   \<and> determineFrequency [charge ''Hulu'' (999 / 100) 3] = ''unknown''"
proof -
  have "spotify_subscription \<in>
      set (DetectRecurringTransactions lower_ascii (\<lambda>a. ''9.99'') 0 [''spotify_9.99''] spotify_charges)"
    by (simp add: spotify_output)
  then show ?thesis
    using frequency_never_unknown [of lower_ascii "\<lambda>a. ''9.99''" 0 "[''spotify_9.99'']"
        spotify_charges "[charge ''Hulu'' (999 / 100) 3]"]
    by auto
qed

section \<open>Scenario B\<close>

lemma keys_single: "distinct ks \<Longrightarrow> set ks = {k} \<Longrightarrow> ks = [k]"
proof -
  assume d: "distinct ks" and s: "set ks = {k}"
  have "length ks = card (set ks)"
    using d by (simp add: distinct_card)
  also have "\<dots> = 1"
    by (simp add: s)
  finally have "length ks = 1" .
  then obtain x where "ks = [x]"
    by (cases ks) auto
  then show ?thesis using s by simp
qed

lemma steady_30_30: "steady [30, 30]"
  by (simp add: steady_def tdiv_def)

lemma tdiv_60_2: "tdiv 60 2 = 30"
  by (simp add: tdiv_def)

text \<open>
  C7. Let the input be exactly three transactions, in any order, none pending, all of the
  merchant Spotify and of one amount that is not negative (a positive amount in
  particular), dated \<open>d\<close>, \<open>d + 30\<close> and \<open>d + 60\<close>. Then the output is exactly one
  subscription, with frequency monthly, last charge on \<open>d + 60\<close>, the most recent date,
  and next due date \<open>d + 90\<close>, for Spotify and that amount.
\<close>

theorem scenario_B:
  assumes "mset transactions = {#t1, t2, t3#}"
    and "\<forall>t \<in> {t1, t2, t3}. \<not> Pending t \<and> MerchantName t = ''Spotify'' \<and> Amount t = a"
    and "\<not> a < 0"
    and "Date t1 = d" and "Date t2 = d + 30" and "Date t3 = d + 60"
    and "range_order (group_transactions ToLower Sprintf_2f transactions Map.empty) keys"
  shows "\<exists>s. DetectRecurringTransactions ToLower Sprintf_2f now keys transactions = [s]
           \<and> frequency s = ''monthly'' \<and> last_charge s = d + 60 \<and> next_due s = d + 90
           \<and> merchant_name s = ''Spotify'' \<and> amount s = a"
proof -
  let ?key = "ToLower ''Spotify'' @ ''_'' @ Sprintf_2f a"
  let ?sorted = "sort_outer (length transactions) 0 transactions"
  have st: "set transactions = {t1, t2, t3}"
    using arg_cong [OF assms(1), of set_mset] by simp
  have len: "length transactions = 3"
    using arg_cong [OF assms(1), of size] by simp
  have ne: "transactions \<noteq> []" and l2: "2 \<le> length transactions"
    using len by auto
  have kept: "\<forall>t \<in> set transactions. kept ToLower Sprintf_2f ?key t"
    using assms(2,3) by (simp add: st kept_def group_key_def)
  have groups: "group_transactions ToLower Sprintf_2f transactions Map.empty = [?key \<mapsto> transactions]"
    by (rule single_group [OF kept ne])
  have keys: "keys = [?key]"
    using assms(7) by (intro keys_single) (simp_all add: groups range_order_def)
  have "mset (map Date transactions) = mset [d, d + 30, d + 60]"
    using arg_cong [OF assms(1), of "image_mset Date"] assms(4,5,6) by simp
  then have "sort (map Date transactions) = [d, d + 30, d + 60]"
    by (intro properties_for_sort) simp_all
  then have gaps: "consecutive_gaps (rev (sort (map Date transactions))) = [30, 30]"
    by (simp add: days_between_def)
  have "fst (isRecurring transactions)"
    by (simp add: isRecurring_steady [OF l2] gaps steady_30_30)
  then obtain s where s: "detect_group now transactions = Some s"
    using l2 detect_group_Some_iff [of now transactions] by blast
  have out: "DetectRecurringTransactions ToLower Sprintf_2f now keys transactions = [s]"
    by (simp add: DetectRecurring_output keys groups s List.map_filter_simps)
  have mx: "Max (Date ` set transactions) = d + 60" and mn: "Min (Date ` set transactions) = d"
    using assms(4,5,6) by (simp_all add: st)
  have avg: "average_gap transactions = 30"
    by (simp add: average_gap_def span_days_def mx mn len days_between_def tdiv_60_2)
  have f: "frequency s = ''monthly''"
    by (simp add: detect_group_frequency(1) [OF s] avg)
  note d = detect_group_Some(3) [OF s]
  have lc: "last_charge s = d + 60"
    by (subst d) (simp add: sorted_ends(1) [OF ne] mx)
  have nd: "next_due s = d + 90"
    by (subst d) (simp add: predictNextDue_sorted [OF l2] mx avg)
  have "?sorted \<noteq> []"
    using length_sort_outer [of transactions] ne by (metis length_0_conv)
  then have "?sorted ! 0 \<in> set ?sorted"
    by (metis nth_mem length_greater_0_conv)
  moreover have "set ?sorted = set transactions"
    using mset_sort_outer [of transactions] by (rule mset_eq_setD)
  ultimately have "?sorted ! 0 \<in> {t1, t2, t3}"
    using st by simp
  then have m: "MerchantName (?sorted ! 0) = ''Spotify''" "Amount (?sorted ! 0) = a"
    using assms(2) by auto
  have "merchant_name s = ''Spotify''" "amount s = a"
    by (subst d, simp add: m)+
  then show ?thesis using out f lc nd by blast
qed

theorem scenario_B_witness:
  "\<exists>s. DetectRecurringTransactions lower_ascii (\<lambda>a. ''9.99'') 0 [''spotify_9.99''] spotify_charges = [s]
      \<and> frequency s = ''monthly'' \<and> last_charge s = 19000 + 60 \<and> next_due s = 19000 + 90
      \<and> merchant_name s = ''Spotify'' \<and> amount s = 999 / 100"
proof -
  let ?t1 = "charge ''Spotify'' (999 / 100) 19000"
  let ?t2 = "charge ''Spotify'' (999 / 100) 19030"
  let ?t3 = "charge ''Spotify'' (999 / 100) 19060"
  have 1: "mset spotify_charges = {#?t1, ?t2, ?t3#}"
    by (simp add: spotify_charges_def)
  have 2: "\<forall>t \<in> {?t1, ?t2, ?t3}. \<not> Pending t \<and> MerchantName t = ''Spotify'' \<and> Amount t = 999 / 100"
    by (simp add: charge_def)
  have 3: "\<not> (999 / 100 :: real) < 0"
    by simp
  have 4: "Date ?t1 = 19000" "Date ?t2 = 19000 + 30" "Date ?t3 = 19000 + 60"
    by (simp_all add: charge_def)
  show ?thesis
    by (rule scenario_B [OF 1 2 3 4 spotify_range_order])
qed

end
